theory Spec2Isabelle
  imports Main "HOL-Library.AList" "HOL-Library.Word"
begin

section \<open>JavaScript values used by the extension\<close>

text \<open>
  A \<open>char\<close> stands for one UTF-16 code unit below 256; the markers, tags and identifier
  annotations of the extension are ASCII, and \<open>CHR 0xA0\<close> is the one non-ASCII white
  space in that range.

  A plain object literal \<open>{}\<close> is modelled by its own properties, kept in insertion
  order. A read \<open>o[k]\<close> that finds no own property falls through to
  \<open>Object.prototype\<close>, so it yields a builtin (a truthy value) for the names in
  \<open>proto_names\<close> and \<open>undefined\<close> otherwise.
\<close>

type_synonym 'v js_object = "(string \<times> 'v) list"

datatype 'v js_lookup = Own 'v | Inherited | Undefined

definition proto_key :: string where
  "proto_key = ''__proto__''"

definition proto_names :: "string list" where
  "proto_names =
     [''constructor'', ''hasOwnProperty'', ''isPrototypeOf'', ''propertyIsEnumerable'',
      ''toLocaleString'', ''toString'', ''valueOf'', ''__defineGetter__'',
      ''__defineSetter__'', ''__lookupGetter__'', ''__lookupSetter__'', proto_key]"

definition obj_get :: "'v js_object \<Rightarrow> string \<Rightarrow> 'v js_lookup" where
  "obj_get ob k =
     (case map_of ob k of
        Some v \<Rightarrow> Own v
      | None \<Rightarrow> if k \<in> set proto_names then Inherited else Undefined)"

text \<open>
  \<open>o[k] = v\<close>: an existing own property keeps its position. The key \<open>__proto__\<close> is the
  prototype accessor and never becomes an own property: assigning a string to it does
  nothing. (Assigning an object to it would replace the prototype; the object-valued
  maps of the extension are keyed by page ids, which the store assigns, by identifiers
  matched by \<open>[a-z0-9-]+\<close> and by document uris, none of which can be \<open>__proto__\<close>.)
\<close>

definition obj_set :: "'v js_object \<Rightarrow> string \<Rightarrow> 'v \<Rightarrow> 'v js_object" where
  "obj_set ob k v = (if k = proto_key then ob else AList.update k v ob)"

text \<open>
  \<open>Object.keys\<close>: array indices (canonical decimal numerals below \<open>2^32 - 1\<close>) come first
  in ascending order, the other keys follow in insertion order.
\<close>

fun digit_value :: "char \<Rightarrow> nat" where
  "digit_value c = of_char c - 48"

definition is_digit :: "char \<Rightarrow> bool" where
  "is_digit c \<longleftrightarrow> c \<in> set ''0123456789''"

definition decimal_value :: "string \<Rightarrow> nat" where
  "decimal_value s = foldl (\<lambda>n c. 10 * n + digit_value c) 0 s"

definition is_array_index :: "string \<Rightarrow> bool" where
  "is_array_index k \<longleftrightarrow>
     k \<noteq> [] \<and> list_all is_digit k \<and> (k = ''0'' \<or> hd k \<noteq> CHR ''0'') \<and>
     decimal_value k < 2 ^ 32 - 1"

definition obj_keys :: "'v js_object \<Rightarrow> string list" where
  "obj_keys ob =
     sort_key decimal_value (filter is_array_index (map fst ob)) @
     filter (\<lambda>k. \<not> is_array_index k) (map fst ob)"

text \<open>Truthiness of a string-valued property read, and of a \<open>string | null\<close> value.\<close>

fun truthy_lookup :: "string js_lookup \<Rightarrow> bool" where
  "truthy_lookup (Own v) = (v \<noteq> [])"
| "truthy_lookup Inherited = True"
| "truthy_lookup Undefined = False"

fun truthy :: "string option \<Rightarrow> bool" where
  "truthy None = False"
| "truthy (Some s) = (s \<noteq> [])"

datatype js_error = Error string | TypeError string | ReferenceError string

text \<open>\<open>String(n)\<close> for a non-negative integer.\<close>

fun string_of_nat :: "nat \<Rightarrow> string" where
  "string_of_nat n =
     (if n < 10 then [''0123456789'' ! n]
      else string_of_nat (n div 10) @ [''0123456789'' ! (n mod 10)])"

section \<open>Records, remote tasks and the Notion client\<close>

text \<open>The record built by \<open>parseTodos\<close>; \<open>todo_id\<close> is \<open>None\<close> for \<open>null\<close>.\<close>

record todo =
  todo_text :: string
  todo_type :: string
  todo_status :: string
  todo_filePath :: string
  todo_lineNumber :: nat
  todo_line :: nat
  todo_column :: nat
  todo_id :: "string option"

text \<open>
  The task object built by \<open>fetchNotionState\<close>: \<open>task_id\<close> is the page id assigned by
  the store, \<open>task_customId\<close> the identifier embedded in the source text.
  \<open>task_lineNumber\<close> is \<open>None\<close> for \<open>undefined\<close>; a number that is not an integer
  differs from every line number, as any other integer does.
\<close>

record task =
  task_id :: string
  task_customId :: string
  task_text :: string
  task_filePath :: string
  task_lineNumber :: "int option"
  task_type :: string
  task_status :: string

record credentials =
  token :: "string option"
  databaseId :: string

text \<open>
  A page as \<open>databases.query\<close> returns it, reduced to what \<open>fetchNotionState\<close> reads:
  the plain texts of the title and rich-text properties (empty when the property is
  missing or empty), the value of \<open>Line Number\<close> when it is a number, and the names of
  the two selects.
\<close>

record page =
  page_id :: string
  page_Name :: "string list"
  page_TODO_ID :: "string list"
  page_File_Path :: "string list"
  page_Line_Number :: "int option"
  page_Type :: "string option"
  page_Status :: "string option"

text \<open>The \<open>properties\<close> payload of \<open>pages.create\<close> and \<open>pages.update\<close>.\<close>

record properties =
  prop_Name :: string
  prop_Type :: string
  prop_Status :: string
  prop_File_Path :: "string option"
  prop_Line_Number :: "string option"
  prop_TODO_ID :: "string option"

text \<open>
  What is passed as \<open>page_id\<close>: a page id, or (in the deletion path) the value found in
  the per-file cache, which \<open>syncTodosOnSave\<close> fills with the parsed records themselves.
\<close>

datatype page_ref = PageKey string | CachedTodo todo

datatype update_body = SetProperties properties | SetArchived bool

datatype request =
    DatabasesQuery string
  | DatabasesRetrieve string
  | PagesCreate string properties
  | PagesUpdate page_ref update_body

text \<open>
  The remote store is a collaborator: each call maps the state of the world to an
  outcome (an exception, \<open>Inl\<close>, or a response) and a new state of the world.
\<close>

record 'w notion_client =
  databases_query :: "string \<Rightarrow> 'w \<Rightarrow> (js_error + page list) \<times> 'w"
  databases_retrieve :: "string \<Rightarrow> 'w \<Rightarrow> (js_error + (string \<times> string) list) \<times> 'w"
  pages_create :: "string \<Rightarrow> properties \<Rightarrow> 'w \<Rightarrow> (js_error + string) \<times> 'w"
  pages_update :: "page_ref \<Rightarrow> update_body \<Rightarrow> 'w \<Rightarrow> (js_error + unit) \<times> 'w"

text \<open>
  The helper invocations of one push pass (its classification of the records) and the
  requests it sends are recorded next to the world.
\<close>

datatype operation = CREATE todo | UPDATE string todo | DELETE page_ref

record 'w pass_state =
  world :: 'w
  ops :: "operation list"
  calls :: "request list"

definition send :: "request \<Rightarrow> 'w \<Rightarrow> 'w pass_state \<Rightarrow> 'w pass_state" where
  "send rq w st = st\<lparr>world := w, calls := calls st @ [rq]\<rparr>"

definition classify :: "operation \<Rightarrow> 'w pass_state \<Rightarrow> 'w pass_state" where
  "classify x st = st\<lparr>ops := ops st @ [x]\<rparr>"

fun is_mutation :: "request \<Rightarrow> bool" where
  "is_mutation (DatabasesQuery _) = False"
| "is_mutation (DatabasesRetrieve _) = False"
| "is_mutation (PagesCreate _ _) = True"
| "is_mutation (PagesUpdate _ _) = True"

section \<open>notionDatabase.js\<close>

definition page_to_task :: "page \<Rightarrow> task" where
  "page_to_task p =
     \<lparr>task_id = page_id p,
      task_customId = (case page_TODO_ID p of [] \<Rightarrow> [] | x # _ \<Rightarrow> x),
      task_text = (case page_Name p of [] \<Rightarrow> ''Untitled Task'' | x # _ \<Rightarrow> x),
      task_filePath = (case page_File_Path p of [] \<Rightarrow> [] | x # _ \<Rightarrow> x),
      task_lineNumber = page_Line_Number p,
      task_type = (if truthy (page_Type p) then the (page_Type p) else []),
      task_status = (if truthy (page_Status p) then the (page_Status p) else [])\<rparr>"

text \<open>Every failure, a missing configuration included, yields the empty array.\<close>

definition fetchNotionState ::
  "'w notion_client \<Rightarrow> credentials \<Rightarrow> 'w pass_state \<Rightarrow> task list \<times> 'w pass_state" where
  "fetchNotionState cl cr st =
     (if \<not> truthy (token cr) \<or> databaseId cr = [] then ([], st)
      else
        (case databases_query cl (databaseId cr) (world st) of
           (Inl e, w) \<Rightarrow> ([], send (DatabasesQuery (databaseId cr)) w st)
         | (Inr pages, w) \<Rightarrow>
             (map page_to_task pages, send (DatabasesQuery (databaseId cr)) w st)))"

text \<open>\<open>listDatabaseProperties\<close>: the schema as an object from names to types, or \<open>null\<close>.\<close>

definition listDatabaseProperties ::
  "'w notion_client \<Rightarrow> credentials \<Rightarrow> 'w pass_state \<Rightarrow>
     string js_object option \<times> 'w pass_state" where
  "listDatabaseProperties cl cr st =
     (if \<not> truthy (token cr) \<or> databaseId cr = [] then (None, st)
      else
        (case databases_retrieve cl (databaseId cr) (world st) of
           (Inl e, w) \<Rightarrow> (None, send (DatabasesRetrieve (databaseId cr)) w st)
         | (Inr entries, w) \<Rightarrow>
             (Some (foldl (\<lambda>ob (k, v). obj_set ob k v) [] entries),
              send (DatabasesRetrieve (databaseId cr)) w st)))"

section \<open>notionTodo.js\<close>

definition or_default :: "string \<Rightarrow> string \<Rightarrow> string" where
  "or_default s d = (if s = [] then d else s)"

text \<open>The payload shared by \<open>createTodo\<close> and \<open>updateTodo\<close>.\<close>

definition todo_properties :: "string js_object option \<Rightarrow> todo \<Rightarrow> properties" where
  "todo_properties dbProperties t =
     (let has = (\<lambda>name. case dbProperties of
                          None \<Rightarrow> False
                        | Some ob \<Rightarrow> truthy_lookup (obj_get ob name))
      in \<lparr>prop_Name = todo_text t,
          prop_Type = or_default (todo_type t) ''TODO'',
          prop_Status = or_default (todo_status t) ''Not started'',
          prop_File_Path =
            (if has ''File Path'' \<and> todo_filePath t \<noteq> []
             then Some (or_default (todo_filePath t) ''Unknown'') else None),
          prop_Line_Number =
            (if has ''Line Number'' then Some (string_of_nat (todo_lineNumber t)) else None),
          prop_TODO_ID =
            (if has ''TODO_ID'' \<and> truthy (todo_id t) then todo_id t else None)\<rparr>)"

text \<open>\<open>createTodo\<close> returns the new page id, or \<open>null\<close> on any failure.\<close>

definition createTodo ::
  "'w notion_client \<Rightarrow> credentials \<Rightarrow> todo \<Rightarrow> 'w pass_state \<Rightarrow>
     string option \<times> 'w pass_state" where
  "createTodo cl cr t st0 =
     (let st = classify (CREATE t) st0 in
      if \<not> truthy (token cr) \<or> databaseId cr = [] then (None, st)
      else
        (case listDatabaseProperties cl cr st of
           (dbProperties, st1) \<Rightarrow>
             (let body = todo_properties dbProperties t;
                  rq = PagesCreate (databaseId cr) body
              in case pages_create cl (databaseId cr) body (world st1) of
                   (Inl e, w) \<Rightarrow> (None, send rq w st1)
                 | (Inr newId, w) \<Rightarrow> (Some newId, send rq w st1))))"

text \<open>\<open>updateTodo\<close> returns whether the update succeeded.\<close>

definition updateTodo ::
  "'w notion_client \<Rightarrow> credentials \<Rightarrow> string \<Rightarrow> todo \<Rightarrow> 'w pass_state \<Rightarrow>
     bool \<times> 'w pass_state" where
  "updateTodo cl cr todoId updates st0 =
     (let st = classify (UPDATE todoId updates) st0 in
      if \<not> truthy (token cr) then (False, st)
      else
        (case listDatabaseProperties cl cr st of
           (dbProperties, st1) \<Rightarrow>
             (let body = SetProperties (todo_properties dbProperties updates);
                  rq = PagesUpdate (PageKey todoId) body
              in case pages_update cl (PageKey todoId) body (world st1) of
                   (Inl e, w) \<Rightarrow> (False, send rq w st1)
                 | (Inr u, w) \<Rightarrow> (True, send rq w st1))))"

text \<open>\<open>deleteTodo\<close> archives the page: the only request is an update setting \<open>archived\<close>.\<close>

definition deleteTodo ::
  "'w notion_client \<Rightarrow> credentials \<Rightarrow> page_ref \<Rightarrow> 'w pass_state \<Rightarrow>
     bool \<times> 'w pass_state" where
  "deleteTodo cl cr todoId st0 =
     (let st = classify (DELETE todoId) st0 in
      if \<not> truthy (token cr) then (False, st)
      else
        (let rq = PagesUpdate todoId (SetArchived True)
         in case pages_update cl todoId (SetArchived True) (world st) of
              (Inl e, w) \<Rightarrow> (False, send rq w st)
            | (Inr u, w) \<Rightarrow> (True, send rq w st)))"

text \<open>The two lookup tables built from the fetched tasks.\<close>

definition customIdToPageId :: "task list \<Rightarrow> string js_object" where
  "customIdToPageId notionTasks =
     foldl (\<lambda>ob t. if task_customId t \<noteq> [] then obj_set ob (task_customId t) (task_id t) else ob)
       [] notionTasks"

definition notionTaskByPageId :: "task list \<Rightarrow> task js_object" where
  "notionTaskByPageId notionTasks = foldl (\<lambda>ob t. obj_set ob (task_id t) t) [] notionTasks"

definition needsUpdate :: "task \<Rightarrow> todo \<Rightarrow> bool" where
  "needsUpdate notionTask t \<longleftrightarrow>
     task_text notionTask \<noteq> todo_text t \<or>
     task_filePath notionTask \<noteq> todo_filePath t \<or>
     task_lineNumber notionTask \<noteq> Some (int (todo_lineNumber t)) \<or>
     task_type notionTask \<noteq> todo_type t \<or>
     task_status notionTask \<noteq> todo_status t"

record sync_result =
  created :: "todo list"
  updated :: "todo list"
  deleted :: "todo list"

definition empty_result :: sync_result where
  "empty_result = \<lparr>created = [], updated = [], deleted = []\<rparr>"

text \<open>
  The loop over the current records. A record without identifier is skipped. A record
  whose identifier has a truthy entry in \<open>customIdToPageId\<close> is compared with the task of
  that page and updated if a field differs; any other record is created.

  An identifier that only names a builtin of the prototype, as in \<open>[id:constructor]\<close>,
  has a truthy entry too. The page id is then the builtin, no task is stored under its
  string form (page ids are assigned by the store), and reading \<open>notionTask.text\<close> of the
  missing task raises a \<open>TypeError\<close>. The exception leaves the loop and is caught at
  the end of \<open>syncTodos\<close>.
\<close>

fun process_todos ::
  "'w notion_client \<Rightarrow> credentials \<Rightarrow> string js_object \<Rightarrow> task js_object \<Rightarrow> todo list \<Rightarrow>
     todo list \<Rightarrow> todo list \<Rightarrow> 'w pass_state \<Rightarrow>
     js_error option \<times> todo list \<times> todo list \<times> 'w pass_state" where
  "process_todos cl cr idx byPage [] cs us st = (None, cs, us, st)"
| "process_todos cl cr idx byPage (t # ts) cs us st =
     (if \<not> truthy (todo_id t) then process_todos cl cr idx byPage ts cs us st
      else
        (case obj_get idx (the (todo_id t)) of
           Own notionPageId \<Rightarrow>
             (if notionPageId \<noteq> [] then
                (case obj_get byPage notionPageId of
                   Own notionTask \<Rightarrow>
                     (if needsUpdate notionTask t then
                        (case updateTodo cl cr notionPageId t st of
                           (success, st') \<Rightarrow>
                             process_todos cl cr idx byPage ts cs
                               (if success then us @ [t] else us) st')
                      else process_todos cl cr idx byPage ts cs us st)
                 | _ \<Rightarrow> (Some (TypeError ''notionTask''), cs, us, st))
              else
                (case createTodo cl cr t st of
                   (newPageId, st') \<Rightarrow>
                     process_todos cl cr idx byPage ts
                       (if truthy newPageId then cs @ [t] else cs) us st'))
         | Inherited \<Rightarrow> (Some (TypeError ''notionTask''), cs, us, st)
         | Undefined \<Rightarrow>
             (case createTodo cl cr t st of
                (newPageId, st') \<Rightarrow>
                  process_todos cl cr idx byPage ts
                    (if truthy newPageId then cs @ [t] else cs) us st')))"

text \<open>
  The deletion marks: every key of the cache without a truthy entry in
  \<open>customIdToPageId\<close> contributes the value cached under it.
\<close>

definition marked_for_deletion :: "string js_object \<Rightarrow> todo js_object \<Rightarrow> todo list" where
  "marked_for_deletion idx cachedTodos =
     concat (map (\<lambda>cachedId.
                    if \<not> truthy_lookup (obj_get idx cachedId)
                    then (case map_of cachedTodos cachedId of Some v \<Rightarrow> [v] | None \<Rightarrow> [])
                    else [])
                 (obj_keys cachedTodos))"

fun delete_marked ::
  "'w notion_client \<Rightarrow> credentials \<Rightarrow> todo list \<Rightarrow> 'w pass_state \<Rightarrow> 'w pass_state" where
  "delete_marked cl cr [] st = st"
| "delete_marked cl cr (todoId # rest) st =
     delete_marked cl cr rest (snd (deleteTodo cl cr (CachedTodo todoId) st))"

definition syncTodos ::
  "'w notion_client \<Rightarrow> credentials \<Rightarrow> todo list \<Rightarrow> todo js_object \<Rightarrow> 'w pass_state \<Rightarrow>
     sync_result \<times> 'w pass_state" where
  "syncTodos cl cr todos cachedTodos st0 =
     (if \<not> truthy (token cr) \<or> databaseId cr = [] then (empty_result, st0)
      else
        (case fetchNotionState cl cr st0 of
           (notionTasks, st1) \<Rightarrow>
             (let idx = customIdToPageId notionTasks;
                  byPage = notionTaskByPageId notionTasks
              in case process_todos cl cr idx byPage todos [] [] st1 of
                   (Some e, cs, us, st2) \<Rightarrow> (empty_result, st2)
                 | (None, cs, us, st2) \<Rightarrow>
                     (let ds = marked_for_deletion idx cachedTodos
                      in (\<lparr>created = cs, updated = us, deleted = ds\<rparr>,
                          delete_marked cl cr ds st2)))))"

text \<open>A pass starts with an empty record of operations and requests.\<close>

definition start :: "'w \<Rightarrow> 'w pass_state" where
  "start w = \<lparr>world = w, ops = [], calls = []\<rparr>"

text \<open>
  The branch conditions of the loop, as predicates on a record: \<open>creates\<close> is the
  condition under which \<open>createTodo\<close> is invoked, \<open>updates\<close> the one under which
  \<open>updateTodo\<close> is invoked for a page id.
\<close>

definition creates :: "string js_object \<Rightarrow> todo \<Rightarrow> bool" where
  "creates idx t \<longleftrightarrow> truthy (todo_id t) \<and> \<not> truthy_lookup (obj_get idx (the (todo_id t)))"

definition updates :: "string js_object \<Rightarrow> task js_object \<Rightarrow> string \<Rightarrow> todo \<Rightarrow> bool" where
  "updates idx byPage pid t \<longleftrightarrow>
     truthy (todo_id t) \<and> obj_get idx (the (todo_id t)) = Own pid \<and> pid \<noteq> [] \<and>
     (\<exists>nt. obj_get byPage pid = Own nt \<and> needsUpdate nt t)"

section \<open>Text: white space and the regular expressions of the extension\<close>

text \<open>The white space of \<open>\s\<close>, \<open>trim\<close> and \<open>trimEnd\<close> among the code units below 256.\<close>

definition is_space :: "char \<Rightarrow> bool" where
  "is_space c \<longleftrightarrow>
     c \<in> set [CHR 0x09, CHR 0x0A, CHR 0x0B, CHR 0x0C, CHR 0x0D, CHR 0x20, CHR 0xA0]"

definition trimStart :: "string \<Rightarrow> string" where
  "trimStart s = dropWhile is_space s"

definition trimEnd :: "string \<Rightarrow> string" where
  "trimEnd s = rev (dropWhile is_space (rev s))"

definition trim :: "string \<Rightarrow> string" where
  "trim s = trimEnd (trimStart s)"

text \<open>
  Under the flag \<open>i\<close> an ASCII letter of the pattern matches its two cases and nothing
  else: a code unit above 127 is never folded onto an ASCII one.
\<close>

definition lower_letters :: string where
  "lower_letters = ''abcdefghijklmnopqrstuvwxyz''"

definition upper_letters :: string where
  "upper_letters = ''ABCDEFGHIJKLMNOPQRSTUVWXYZ''"

definition to_upper :: "char \<Rightarrow> char" where
  "to_upper c =
     (case map_of (zip lower_letters upper_letters) c of Some u \<Rightarrow> u | None \<Rightarrow> c)"

text \<open>A literal of the pattern at the start of the input: the rest of the input, if it matches.\<close>

fun lit_ci :: "string \<Rightarrow> string \<Rightarrow> string option" where
  "lit_ci [] s = Some s"
| "lit_ci (p # ps) [] = None"
| "lit_ci (p # ps) (c # cs) = (if to_upper c = to_upper p then lit_ci ps cs else None)"

text \<open>
  A pattern is modelled by its match at the start of the input, which yields the
  captured group and the rest of the input; \<open>search\<close> is the scan of \<open>exec\<close>, \<open>match\<close> and
  \<open>replace\<close> for a pattern without the flag \<open>g\<close>: the leftmost start position that
  matches, the end of the input included. It yields the text before the match, the
  group, and the text after the match.
\<close>

fun search ::
  "(string \<Rightarrow> ('g \<times> string) option) \<Rightarrow> string \<Rightarrow> (string \<times> 'g \<times> string) option" where
  "search m [] = (case m [] of None \<Rightarrow> None | Some (g, r) \<Rightarrow> Some ([], g, r))"
| "search m (c # cs) =
     (case m (c # cs) of
        Some (g, r) \<Rightarrow> Some ([], g, r)
      | None \<Rightarrow>
          (case search m cs of None \<Rightarrow> None | Some (b, g, r) \<Rightarrow> Some (c # b, g, r)))"

text \<open>\<open>s.replace(pattern, '')\<close>.\<close>

definition remove_first :: "(string \<Rightarrow> ('g \<times> string) option) \<Rightarrow> string \<Rightarrow> string" where
  "remove_first m s = (case search m s of None \<Rightarrow> s | Some (b, g, r) \<Rightarrow> b @ r)"

text \<open>
  The alternation \<open>(TODO|FIXME|BUG|HACK|XXX)\<close>. The tags start with different letters,
  so at most one alternative matches; the group is given in upper case, which is all the
  parser uses of it.
\<close>

definition tags :: "string list" where
  "tags = [''TODO'', ''FIXME'', ''BUG'', ''HACK'', ''XXX'']"

fun first_tag :: "string list \<Rightarrow> string \<Rightarrow> (string \<times> string) option" where
  "first_tag [] s = None"
| "first_tag (t # ts) s =
     (case lit_ci t s of Some r \<Rightarrow> Some (t, r) | None \<Rightarrow> first_tag ts s)"

text \<open>
  \<open>getTodoRegex\<close>, that is \<open>/\/\/\s*(TODO|FIXME|BUG|HACK|XXX)\s*/i\<close>. A tag does not
  start with white space, so the greedy \<open>\s*\<close> before it takes the whole run of white
  space.
\<close>

definition slashes :: string where
  "slashes = ''//''"

definition todoRegex :: "string \<Rightarrow> (string \<times> string) option" where
  "todoRegex s =
     (case lit_ci slashes s of
        None \<Rightarrow> None
      | Some r \<Rightarrow>
          (case first_tag tags (dropWhile is_space r) of
             None \<Rightarrow> None
           | Some (tag, r') \<Rightarrow> Some (tag, dropWhile is_space r')))"

text \<open>\<open>todoPrefixRegex\<close>, that is \<open>/\/\/\s*(TODO|FIXME|BUG|HACK|XXX)\s*[:\s]*/i\<close>.\<close>

definition todoPrefixRegex :: "string \<Rightarrow> (string \<times> string) option" where
  "todoPrefixRegex s =
     (case lit_ci slashes s of
        None \<Rightarrow> None
      | Some r \<Rightarrow>
          (case first_tag tags (dropWhile is_space r) of
             None \<Rightarrow> None
           | Some (tag, r') \<Rightarrow> Some (tag, dropWhile (\<lambda>c. c = CHR '':'' \<or> is_space c) r')))"

text \<open>
  The class \<open>[a-z0-9-]\<close> under the flag \<open>i\<close>, and \<open>idRegex\<close> of \<open>parseTodos\<close>, that is
  \<open>/\[id:([a-z0-9-]+)\]/i\<close> (\<open>idPartRegex\<close> is the same pattern without the group). The
  class does not contain the closing bracket, so the token is the whole run of class
  characters.
\<close>

definition is_idchar :: "char \<Rightarrow> bool" where
  "is_idchar c \<longleftrightarrow>
     c \<in> set lower_letters \<or> c \<in> set upper_letters \<or> is_digit c \<or> c = CHR ''-''"

definition id_open :: string where
  "id_open = ''[id:''"

definition idRegex :: "string \<Rightarrow> (string \<times> string) option" where
  "idRegex s =
     (case lit_ci id_open s of
        None \<Rightarrow> None
      | Some r \<Rightarrow>
          (if takeWhile is_idchar r = [] then None
           else
             (case dropWhile is_idchar r of
                [] \<Rightarrow> None
              | c # r' \<Rightarrow> if c = CHR '']'' then Some (takeWhile is_idchar r, r') else None)))"

text \<open>The pattern of \<open>injectTodoIds\<close>, that is \<open>/\s*\[id:[a-z0-9-]+\]$/i\<close>.\<close>

definition trailingIdRegex :: "string \<Rightarrow> (string \<times> string) option" where
  "trailingIdRegex s =
     (case idRegex (dropWhile is_space s) of
        None \<Rightarrow> None
      | Some (tok, r) \<Rightarrow> if r = [] then Some (tok, []) else None)"

text \<open>
  \<open>idRegex\<close> of \<open>scanDocumentsForTodos\<close>, that is
  \<open>/\/\/\s*(TODO|FIXME|BUG|HACK|XXX)\s*\[id:([a-z0-9-]+)\]\s*(.*)/i\<close>, applied to one line;
  the group is the identifier.
\<close>

definition scanIdRegex :: "string \<Rightarrow> (string \<times> string) option" where
  "scanIdRegex s =
     (case lit_ci slashes s of
        None \<Rightarrow> None
      | Some r \<Rightarrow>
          (case first_tag tags (dropWhile is_space r) of
             None \<Rightarrow> None
           | Some (tag, r') \<Rightarrow>
               (case idRegex (dropWhile is_space r') of
                  None \<Rightarrow> None
                | Some (tok, r'') \<Rightarrow> Some (tok, []))))"

section \<open>utils.js and todoParser.js\<close>

text \<open>
  \<open>generateRandomId\<close> fills the template with hexadecimal digits. \<open>Math.random() * 16 | 0\<close>
  is a value from 0 to 15; the source of randomness is a sequence of such values, read
  from a position that advances.
\<close>

definition hex_digit :: "4 word \<Rightarrow> char" where
  "hex_digit v = ''0123456789abcdef'' ! unat v"

fun fill_template :: "(nat \<Rightarrow> 4 word) \<Rightarrow> nat \<Rightarrow> string \<Rightarrow> string \<times> nat" where
  "fill_template rnd k [] = ([], k)"
| "fill_template rnd k (c # cs) =
     (if c = CHR ''x'' then
        (case fill_template rnd (Suc k) cs of (s, k') \<Rightarrow> (hex_digit (rnd k) # s, k'))
      else if c = CHR ''y'' then
        (case fill_template rnd (Suc k) cs of
           (s, k') \<Rightarrow> (hex_digit (or (and (rnd k) 3) 8) # s, k'))
      else (case fill_template rnd k cs of (s, k') \<Rightarrow> (c # s, k')))"

definition generateRandomId :: "(nat \<Rightarrow> 4 word) \<Rightarrow> nat \<Rightarrow> string \<times> nat" where
  "generateRandomId rnd k = fill_template rnd k ''xxxxxxxx-xxxx-4xxx-yxxx-xxxxxxxxxxxx''"

record document =
  doc_uri :: string
  doc_scheme :: string
  doc_fsPath :: string
  doc_lines :: "string list"

text \<open>The text of a record: the trimmed line without the first tag prefix and the first annotation.\<close>

definition todoText :: "string \<Rightarrow> string" where
  "todoText lineText = trim (remove_first idRegex (trim (remove_first todoPrefixRegex (trim lineText))))"

text \<open>The identifier the extractor detects on a line, if any (\<open>idMatch[1]\<close>).\<close>

definition detected_id :: "string \<Rightarrow> string option" where
  "detected_id lineText = (case search idRegex lineText of None \<Rightarrow> None | Some (b, tok, r) \<Rightarrow> Some tok)"

definition matches_todo :: "string \<Rightarrow> bool" where
  "matches_todo lineText \<longleftrightarrow> search todoRegex lineText \<noteq> None"

text \<open>The type of a record: the tag of the first match, in upper case.\<close>

definition todoType :: "string \<Rightarrow> string" where
  "todoType lineText = (case search todoRegex lineText of None \<Rightarrow> ''TODO'' | Some (b, tag, r) \<Rightarrow> tag)"

definition make_todo :: "string \<Rightarrow> nat \<Rightarrow> string \<Rightarrow> string \<Rightarrow> todo" where
  "make_todo filePath i lineText todoId =
     \<lparr>todo_text = todoText lineText, todo_type = todoType lineText,
      todo_status = ''Not started'', todo_filePath = filePath, todo_lineNumber = i + 1,
      todo_line = i, todo_column = 0, todo_id = Some todoId\<rparr>"

definition maxTodos :: nat where
  "maxTodos = 50"

text \<open>
  The loop of \<open>parseTodos\<close> from line \<open>i\<close> on: it stops at the end of the document or as
  soon as \<open>maxTodos\<close> records are collected.
\<close>

fun parse_lines ::
  "string \<Rightarrow> (nat \<Rightarrow> 4 word) \<Rightarrow> string list \<Rightarrow> nat \<Rightarrow> nat \<Rightarrow> todo list \<Rightarrow> todo list \<times> nat" where
  "parse_lines filePath rnd [] i k todos = (todos, k)"
| "parse_lines filePath rnd (lineText # rest) i k todos =
     (if length todos < maxTodos then
        (if \<not> matches_todo lineText then parse_lines filePath rnd rest (i + 1) k todos
         else
           (case detected_id lineText of
              Some tok \<Rightarrow>
                parse_lines filePath rnd rest (i + 1) k
                  (todos @ [make_todo filePath i lineText tok])
            | None \<Rightarrow>
                (case generateRandomId rnd k of
                   (fresh, k') \<Rightarrow>
                     parse_lines filePath rnd rest (i + 1) k'
                       (todos @ [make_todo filePath i lineText fresh]))))
      else (todos, k))"

definition parseTodos :: "document \<Rightarrow> (nat \<Rightarrow> 4 word) \<Rightarrow> nat \<Rightarrow> todo list \<times> nat" where
  "parseTodos doc rnd k = parse_lines (doc_fsPath doc) rnd (doc_lines doc) 0 k []"

section \<open>todoSync.js: the stamper and the cache\<close>

definition id_text :: "string option \<Rightarrow> string" where
  "id_text todoId = (case todoId of None \<Rightarrow> ''null'' | Some s \<Rightarrow> s)"

text \<open>
  The line \<open>injectTodoIds\<close> computes for a record: the line without a trailing
  annotation and without white space at its end, then a space and the annotation.
\<close>

definition unstamped :: "string \<Rightarrow> string" where
  "unstamped lineText = trimEnd (remove_first trailingIdRegex lineText)"

definition newLineText :: "string \<Rightarrow> string option \<Rightarrow> string" where
  "newLineText lineText todoId =
     unstamped lineText @ '' '' @ id_open @ id_text todoId @ '']''"

text \<open>
  The edits \<open>injectTodoIds\<close> schedules: one replacement for each record whose line
  differs from the computed one. \<open>lineAt\<close> raises outside the document, and then no edit
  is applied.
\<close>

fun inject_edits :: "string list \<Rightarrow> todo list \<Rightarrow> js_error + (nat \<times> string) list" where
  "inject_edits lines [] = Inr []"
| "inject_edits lines (t # ts) =
     (if todo_line t < length lines then
        (case inject_edits lines ts of
           Inl e \<Rightarrow> Inl e
         | Inr es \<Rightarrow>
             (if lines ! todo_line t \<noteq> newLineText (lines ! todo_line t) (todo_id t)
              then Inr ((todo_line t, newLineText (lines ! todo_line t) (todo_id t)) # es)
              else Inr es))
      else Inl (Error ''Illegal value for line''))"

definition injectTodoIds :: "document \<Rightarrow> todo list \<Rightarrow> js_error + (nat \<times> string) list" where
  "injectTodoIds doc todos = inject_edits (doc_lines doc) todos"

text \<open>The stamper on one matching line: extract the identifier or mint one, then inject.\<close>

definition stamp_line :: "string \<Rightarrow> string \<Rightarrow> string" where
  "stamp_line fresh lineText =
     newLineText lineText
       (Some (case detected_id lineText of Some tok \<Rightarrow> tok | None \<Rightarrow> fresh))"

text \<open>The cache \<open>syncTodosOnSave\<close> stores for a file after a pass.\<close>

definition cache_of :: "todo list \<Rightarrow> todo js_object" where
  "cache_of todos =
     foldl (\<lambda>ob t. if truthy (todo_id t) then obj_set ob (the (todo_id t)) t else ob) [] todos"


text \<open>
  A token of the identifier class, and the characters that can occur neither inside an
  annotation nor as its last character.
\<close>

definition wf_token :: "string \<Rightarrow> bool" where
  "wf_token tok \<longleftrightarrow> tok \<noteq> [] \<and> list_all is_idchar tok"

definition separator :: "char \<Rightarrow> bool" where
  "separator c \<longleftrightarrow> \<not> is_idchar c \<and> c \<noteq> CHR '':'' \<and> c \<noteq> CHR '']''"

text \<open>
  Replacing the range of a line by a text: the text is split at its line breaks, so it
  may put several lines in the place of one. A line outside the document is not edited.
\<close>

definition is_eol :: "char \<Rightarrow> bool" where
  "is_eol c \<longleftrightarrow> c = CHR 0x0A \<or> c = CHR 0x0D"

fun split_lines :: "string \<Rightarrow> string list" where
  "split_lines [] = [[]]"
| "split_lines (c # cs) =
     (if c = CHR 0x0D \<and> cs \<noteq> [] \<and> hd cs = CHR 0x0A then [] # split_lines (tl cs)
      else if is_eol c then [] # split_lines cs
      else (case split_lines cs of l # ls \<Rightarrow> (c # l) # ls | [] \<Rightarrow> [[c]]))"

definition replace_line :: "nat \<Rightarrow> string \<Rightarrow> string list \<Rightarrow> string list" where
  "replace_line i newText ls =
     (if i < length ls then take i ls @ split_lines newText @ drop (Suc i) ls else ls)"

definition no_eol :: "string \<Rightarrow> bool" where
  "no_eol s \<longleftrightarrow> list_all (\<lambda>c. \<not> is_eol c) s"

text \<open>
  The edits of \<open>injectTodoIds\<close> are applied together: each replaces the range of its line
  by the new text.
\<close>

definition apply_line_edits :: "(nat \<times> string) list \<Rightarrow> string list \<Rightarrow> string list" where
  "apply_line_edits es ls = foldl (\<lambda>l (i, t). replace_line i t l) ls es"

text \<open>
  The indices of the lines \<open>parseTodos\<close> turns into records, from line \<open>i\<close> on with \<open>n\<close>
  records already collected.
\<close>

fun selected :: "string list \<Rightarrow> nat \<Rightarrow> nat \<Rightarrow> nat list" where
  "selected [] i n = []"
| "selected (lineText # rest) i n =
     (if n < maxTodos then
        (if matches_todo lineText then i # selected rest (i + 1) (n + 1)
         else selected rest (i + 1) n)
      else [])"

text \<open>
  The record \<open>parseTodos\<close> builds for line \<open>j\<close> when the identifier of that line is
  \<open>idof j\<close>, and what an assignment of identifiers to lines must satisfy: every identifier
  is a token, and it is the detected one wherever the extractor detects one.
\<close>

definition record_at :: "string \<Rightarrow> string list \<Rightarrow> (nat \<Rightarrow> string) \<Rightarrow> nat \<Rightarrow> todo" where
  "record_at filePath full idof j = make_todo filePath j (full ! j) (idof j)"

definition reads :: "string list \<Rightarrow> (nat \<Rightarrow> string) \<Rightarrow> bool" where
  "reads full idof \<longleftrightarrow>
     (\<forall>j. wf_token (idof j) \<and> (\<forall>x. detected_id (full ! j) = Some x \<longrightarrow> idof j = x))"

section \<open>todoParser.js: scanning the open documents\<close>

text \<open>The record \<open>scanDocumentsForTodos\<close> builds; \<open>ct_id\<close> is \<open>None\<close> for \<open>null\<close>.\<close>

record code_todo =
  ct_text :: string
  ct_line :: nat
  ct_column :: nat
  ct_id :: "string option"
  ct_uri :: string

text \<open>\<open>Object.values\<close>, and \<open>indexOf\<close> (the first position of a value, here always found).\<close>

definition obj_values :: "'v js_object \<Rightarrow> 'v list" where
  "obj_values ob = List.map_filter (map_of ob) (obj_keys ob)"

fun indexOf :: "'a list \<Rightarrow> 'a \<Rightarrow> nat" where
  "indexOf [] x = 0"
| "indexOf (y # ys) x = (if y = x then 0 else Suc (indexOf ys x))"

text \<open>
  \<open>getText\<close>, with the lines joined by a line feed, and \<open>positionAt\<close>: the line of an
  offset is the number of line feeds before it, its column the distance to the last
  of them.
\<close>

fun getText :: "string list \<Rightarrow> string" where
  "getText [] = []"
| "getText [l] = l"
| "getText (l # ls) = l @ CHR 0x0A # getText ls"

definition position_line :: "string \<Rightarrow> nat \<Rightarrow> nat" where
  "position_line text offset = length (filter (\<lambda>c. c = CHR 0x0A) (take offset text))"

definition position_character :: "string \<Rightarrow> nat \<Rightarrow> nat" where
  "position_character text offset =
     length (takeWhile (\<lambda>c. c \<noteq> CHR 0x0A) (rev (take offset text)))"

text \<open>
  The record pushed for a document: the pattern has no flag \<open>g\<close>, so every \<open>exec\<close>
  returns the first match of the text. A match starts with a slash, so the inner loop
  over leading line breaks does nothing.
\<close>

definition first_code_todo :: "document \<Rightarrow> code_todo option" where
  "first_code_todo doc =
     (let text = getText (doc_lines doc) in
      case search todoRegex text of
        None \<Rightarrow> None
      | Some (pre, tag, rest) \<Rightarrow>
          (let offset = length pre;
               lineText = doc_lines doc ! position_line text offset
           in Some \<lparr>ct_text = trim lineText,
                     ct_line = position_line text offset,
                     ct_column = position_character text offset,
                     ct_id = (case search scanIdRegex lineText of
                                None \<Rightarrow> None
                              | Some (b, tok, r) \<Rightarrow> Some tok),
                     ct_uri = doc_uri doc\<rparr>))"

text \<open>
  The \<open>while\<close> loop for one document: as long as there is a match and the array is
  shorter than the bound, the record of the first match is pushed again.
\<close>

function scan_while :: "code_todo option \<Rightarrow> nat \<Rightarrow> code_todo list \<Rightarrow> code_todo list" where
  "scan_while match bound todos =
     (case match of
        None \<Rightarrow> todos
      | Some todo \<Rightarrow>
          if length todos < bound then scan_while match bound (todos @ [todo]) else todos)"
  by pat_completeness auto
termination
  by (relation "measure (\<lambda>(match, bound, todos). bound - length todos)") auto

text \<open>
  The callback of \<open>forEach\<close>: the bound is \<open>maxTodos\<close> times the position of the document
  among the open documents, counted from 1.
\<close>

definition scan_document :: "document list \<Rightarrow> code_todo list \<Rightarrow> document \<Rightarrow> code_todo list" where
  "scan_document values todos doc =
     (if doc_scheme doc = ''file'' \<or> doc_scheme doc = ''untitled''
      then scan_while (first_code_todo doc) (maxTodos * (indexOf values doc + 1)) todos
      else todos)"

text \<open>The array \<open>todos\<close> when \<open>forEach\<close> returns.\<close>

definition scanned :: "document js_object \<Rightarrow> code_todo list" where
  "scanned openDocuments =
     foldl (scan_document (obj_values openDocuments)) [] (obj_values openDocuments)"

text \<open>
  After the loop the function reads \<open>maxTodos\<close>, which is declared inside the callback
  and is not in scope there: the read raises a \<open>ReferenceError\<close>, and the array is never
  returned.
\<close>

definition scanDocumentsForTodos :: "document js_object \<Rightarrow> js_error + code_todo list" where
  "scanDocumentsForTodos openDocuments =
     (case scanned openDocuments of
        todos \<Rightarrow> Inl (ReferenceError ''maxTodos is not defined''))"

section \<open>todoSync.js: from Notion to the code\<close>

text \<open>
  An edit of a buffer: \<open>updateTodoInCode\<close> replaces the range of a line by a text,
  \<open>deleteTodoFromCode\<close> deletes the range of a line. The range of a line excludes its
  line break.
\<close>

datatype local_edit = ReplaceLine string nat string | DeleteLine string nat

text \<open>
  \<open>reconcileNotionToCode\<close>. A task is looked up in \<open>codeMap\<close> under its own key. A
  lookup that only finds a builtin of the prototype is truthy, but has neither a
  \<open>uri\<close> nor a \<open>line\<close>: \<open>lineAt\<close> raises and no buffer is edited.
\<close>

definition reconcile_task :: "code_todo js_object \<Rightarrow> string \<Rightarrow> task \<Rightarrow> local_edit list" where
  "reconcile_task codeMap notionId notionTask =
     (if task_status notionTask = ''Archived'' then
        (case obj_get codeMap notionId of
           Own codeTodo \<Rightarrow> [DeleteLine (ct_uri codeTodo) (ct_line codeTodo)]
         | _ \<Rightarrow> [])
      else
        (case obj_get codeMap notionId of
           Own codeTodo \<Rightarrow>
             (if task_text notionTask \<noteq> [] \<and> task_text notionTask \<noteq> ct_text codeTodo
              then [ReplaceLine (ct_uri codeTodo) (ct_line codeTodo) (task_text notionTask)]
              else [])
         | _ \<Rightarrow> []))"

definition reconcileNotionToCode :: "task js_object \<Rightarrow> code_todo js_object \<Rightarrow> local_edit list" where
  "reconcileNotionToCode notionMap codeMap =
     concat (map (\<lambda>notionId.
                    case map_of notionMap notionId of
                      None \<Rightarrow> []
                    | Some notionTask \<Rightarrow> reconcile_task codeMap notionId notionTask)
                 (obj_keys notionMap))"

text \<open>The two maps \<open>syncNotionToCode\<close> builds: tasks by page id, scanned records by identifier.\<close>

definition notionMap_of :: "task list \<Rightarrow> task js_object" where
  "notionMap_of notionTasks = foldl (\<lambda>ob t. obj_set ob (task_id t) t) [] notionTasks"

definition codeMap_of :: "code_todo list \<Rightarrow> code_todo js_object" where
  "codeMap_of codeTodos =
     foldl (\<lambda>ob t. if truthy (ct_id t) then obj_set ob (the (ct_id t)) t else ob) [] codeTodos"

text \<open>
  \<open>syncNotionToCode\<close>: the state is fetched, then the open documents are scanned; an
  exception rejects the promise and the pass ends with an error message and no edit.
\<close>

definition syncNotionToCode ::
  "'w notion_client \<Rightarrow> credentials \<Rightarrow> document js_object \<Rightarrow> 'w pass_state \<Rightarrow>
     (js_error + local_edit list) \<times> 'w pass_state" where
  "syncNotionToCode cl cr openDocuments st =
     (case fetchNotionState cl cr st of
        (notionTasks, st1) \<Rightarrow>
          (case scanDocumentsForTodos openDocuments of
             Inl e \<Rightarrow> (Inl e, st1)
           | Inr codeTodos \<Rightarrow>
               (Inr (reconcileNotionToCode (notionMap_of notionTasks) (codeMap_of codeTodos)),
                st1)))"

text \<open>
  The buffers of the editor, by uri, and the effect of an edit. A replacement text is
  split at its line breaks, so it may put several lines in the place of one; deleting
  the range of a line leaves an empty line. An edit of a line outside the document is
  not applied.
\<close>

definition delete_line :: "nat \<Rightarrow> string list \<Rightarrow> string list" where
  "delete_line i ls = (if i < length ls then ls[i := []] else ls)"

fun apply_edit :: "local_edit \<Rightarrow> (string \<Rightarrow> string list option) \<Rightarrow> (string \<Rightarrow> string list option)" where
  "apply_edit (ReplaceLine uri i newText) bufs =
     (case bufs uri of
        None \<Rightarrow> bufs
      | Some ls \<Rightarrow> bufs(uri \<mapsto> replace_line i newText ls))"
| "apply_edit (DeleteLine uri i) bufs =
     (case bufs uri of
        None \<Rightarrow> bufs
      | Some ls \<Rightarrow> bufs(uri \<mapsto> delete_line i ls))"

definition apply_edits ::
  "local_edit list \<Rightarrow> (string \<Rightarrow> string list option) \<Rightarrow> (string \<Rightarrow> string list option)" where
  "apply_edits es bufs = foldl (\<lambda>b e. apply_edit e b) bufs es"

text \<open>The lines an edit list can touch, and the replacement texts it carries.\<close>

fun edit_target :: "local_edit \<Rightarrow> string \<times> nat" where
  "edit_target (ReplaceLine uri i newText) = (uri, i)"
| "edit_target (DeleteLine uri i) = (uri, i)"

fun edit_text :: "local_edit \<Rightarrow> string" where
  "edit_text (ReplaceLine uri i newText) = newText"
| "edit_text (DeleteLine uri i) = []"

text \<open>
  The edits a pull hands to the editor, none when it ends in an exception, and the
  buffers after the pull.
\<close>

fun scheduled :: "js_error + local_edit list \<Rightarrow> local_edit list" where
  "scheduled (Inl e) = []"
| "scheduled (Inr es) = es"

definition pull ::
  "'w notion_client \<Rightarrow> credentials \<Rightarrow> document js_object \<Rightarrow> 'w pass_state \<Rightarrow>
     (string \<Rightarrow> string list option) \<Rightarrow> (string \<Rightarrow> string list option)" where
  "pull cl cr openDocuments st bufs =
     apply_edits (scheduled (fst (syncNotionToCode cl cr openDocuments st))) bufs"

text \<open>The buffers of the open documents.\<close>

definition buffers :: "document js_object \<Rightarrow> string \<Rightarrow> string list option" where
  "buffers openDocuments uri = map_option doc_lines (map_of openDocuments uri)"

section \<open>Concrete stores and records\<close>

text \<open>
  Clients whose answers are fixed, and the records of the scenarios: a marker line
  \<open>// FIXME: handle edge case [id:abc-123]\<close> and the page that matches it field by field.
\<close>

definition ok_client :: "page list \<Rightarrow> unit notion_client" where
  "ok_client pages =
     \<lparr>databases_query = (\<lambda>d w. (Inr pages, w)),
      databases_retrieve = (\<lambda>d w.
         (Inr [(''Name'', ''title''), (''TODO_ID'', ''rich_text'')], w)),
      pages_create = (\<lambda>d p w. (Inr ''page-new'', w)),
      pages_update = (\<lambda>r b w. (Inr (), w))\<rparr>"

definition some_credentials :: credentials where
  "some_credentials = \<lparr>token = Some ''secret'', databaseId = ''db''\<rparr>"

definition fixme_todo :: todo where
  "fixme_todo =
     \<lparr>todo_text = ''handle edge case'', todo_type = ''FIXME'', todo_status = ''Not started'',
      todo_filePath = ''/src/a.js'', todo_lineNumber = 1, todo_line = 0, todo_column = 0,
      todo_id = Some ''abc-123''\<rparr>"

definition fixme_page :: page where
  "fixme_page =
     \<lparr>page_id = ''page-1'', page_Name = [''handle edge case''], page_TODO_ID = [''abc-123''],
      page_File_Path = [''/src/a.js''], page_Line_Number = Some 1, page_Type = Some ''FIXME'',
      page_Status = Some ''Not started''\<rparr>"

definition removed_todo :: todo where
  "removed_todo =
     \<lparr>todo_text = ''old marker'', todo_type = ''TODO'', todo_status = ''Not started'',
      todo_filePath = ''/src/a.js'', todo_lineNumber = 5, todo_line = 4, todo_column = 0,
      todo_id = Some ''xyz-999''\<rparr>"

definition failing_client :: "page list \<Rightarrow> unit notion_client" where
  "failing_client pages =
     \<lparr>databases_query = (\<lambda>d w. (Inr pages, w)),
      databases_retrieve = (\<lambda>d w. (Inl (Error ''request failed''), w)),
      pages_create = (\<lambda>d p w. (Inl (Error ''request failed''), w)),
      pages_update = (\<lambda>r b w. (Inl (Error ''request failed''), w))\<rparr>"

definition offline_client :: "unit notion_client" where
  "offline_client =
     \<lparr>databases_query = (\<lambda>d w. (Inl (Error ''fetch failed''), w)),
      databases_retrieve = (\<lambda>d w. (Inl (Error ''fetch failed''), w)),
      pages_create = (\<lambda>d p w. (Inl (Error ''fetch failed''), w)),
      pages_update = (\<lambda>r b w. (Inl (Error ''fetch failed''), w))\<rparr>"

text \<open>
  A record whose marker line has been removed from the buffer, the page that was created
  for it, a client whose writes all fail, and a client that cannot reach the store.
\<close>

definition removed_page :: page where
  "removed_page =
     \<lparr>page_id = ''page-9'', page_Name = [''old marker''], page_TODO_ID = [''xyz-999''],
      page_File_Path = [''/src/a.js''], page_Line_Number = Some 5, page_Type = Some ''TODO'',
      page_Status = Some ''Not started''\<rparr>"

text \<open>A saved file with a single line.\<close>

definition one_line :: "string \<Rightarrow> document" where
  "one_line l = \<lparr>doc_uri = ''file:///src/a.js'', doc_scheme = ''file'',
     doc_fsPath = ''/src/a.js'', doc_lines = [l]\<rparr>"

text \<open>A source of randomness that always yields 0, and the lower-case hexadecimal alphabet.\<close>

definition zero_source :: "nat \<Rightarrow> 4 word" where
  "zero_source n = 0"

definition is_lower_hex :: "char \<Rightarrow> bool" where
  "is_lower_hex c \<longleftrightarrow> c \<in> set ''0123456789abcdef-''"

text \<open>
  Two open documents, the first without marker, the second with one marker whose
  identifier is the page id of a task; the task once with a one-line title, once with
  a title of two lines.
\<close>

definition quiet_doc :: document where
  "quiet_doc = \<lparr>doc_uri = ''file:///src/a.js'', doc_scheme = ''file'',
     doc_fsPath = ''/src/a.js'', doc_lines = [''let x = 1;'']\<rparr>"

definition stale_doc :: document where
  "stale_doc = \<lparr>doc_uri = ''file:///src/b.js'', doc_scheme = ''file'',
     doc_fsPath = ''/src/b.js'', doc_lines = [''let y = 2;'', ''// TODO [id:page-7] old text'']\<rparr>"

definition two_docs :: "document js_object" where
  "two_docs = [(''file:///src/a.js'', quiet_doc), (''file:///src/b.js'', stale_doc)]"

definition plain_task :: task where
  "plain_task =
     \<lparr>task_id = ''page-7'', task_customId = ''page-7'', task_text = ''new text'',
      task_filePath = ''/src/b.js'', task_lineNumber = None, task_type = ''TODO'',
      task_status = ''In progress''\<rparr>"

definition multiline_task :: task where
  "multiline_task = plain_task\<lparr>task_text := ''first'' @ [CHR 0x0A] @ ''second''\<rparr>"

text \<open>A saved file with an unstamped marker, a line of code and a stamped marker.\<close>

definition example_doc :: document where
  "example_doc =
     \<lparr>doc_uri = ''file:///src/a.js'', doc_scheme = ''file'', doc_fsPath = ''/src/a.js'',
      doc_lines = [''// TODO: fix null check'', ''let x = 1;'',
                   ''// FIXME: handle edge case [id:abc-123]'']\<rparr>"

text \<open>A record whose identifier names a builtin of the prototype.\<close>

definition keyword_todo :: todo where
  "keyword_todo = fixme_todo\<lparr>todo_id := Some ''constructor'', todo_line := 1, todo_lineNumber := 2\<rparr>"

text \<open>
  The page of a task whose title has two lines and whose page id is the identifier on
  the marker line of the second document.
\<close>

definition multiline_page :: page where
  "multiline_page =
     \<lparr>page_id = ''page-7'', page_Name = [''first'' @ [CHR 0x0A] @ ''second''],
      page_TODO_ID = [''page-7''], page_File_Path = [''/src/b.js''], page_Line_Number = None,
      page_Type = Some ''TODO'', page_Status = Some ''In progress''\<rparr>"

text \<open>
  A store that keeps what it is sent. A page comes back from a query with each property
  of the type it was written with: the title, the two selects, and the rich texts
  \<open>File Path\<close>, \<open>Line Number\<close> and \<open>TODO_ID\<close> when the payload has them. \<open>createTodo\<close> and
  \<open>updateTodo\<close> write \<open>Line Number\<close> as a rich text holding \<open>String(todo.lineNumber)\<close>, so
  the page has no number under \<open>Line Number\<close>. An update sets the properties of its payload
  and keeps the others, an archived page is no longer returned by a query, and a
  \<open>page_id\<close> that is not a string is refused.
\<close>

record store =
  next_page :: nat
  store_pages :: "page list"

definition rich_text :: "string option \<Rightarrow> string list" where
  "rich_text content = (case content of None \<Rightarrow> [] | Some s \<Rightarrow> [s])"

definition written_page :: "string \<Rightarrow> properties \<Rightarrow> page" where
  "written_page pid props =
     \<lparr>page_id = pid, page_Name = [prop_Name props],
      page_TODO_ID = rich_text (prop_TODO_ID props),
      page_File_Path = rich_text (prop_File_Path props),
      page_Line_Number = None,
      page_Type = Some (prop_Type props), page_Status = Some (prop_Status props)\<rparr>"

definition rewritten_page :: "properties \<Rightarrow> page \<Rightarrow> page" where
  "rewritten_page props p =
     p\<lparr>page_Name := [prop_Name props],
       page_TODO_ID := (case prop_TODO_ID props of None \<Rightarrow> page_TODO_ID p | Some s \<Rightarrow> [s]),
       page_File_Path := (case prop_File_Path props of None \<Rightarrow> page_File_Path p | Some s \<Rightarrow> [s]),
       page_Type := Some (prop_Type props), page_Status := Some (prop_Status props)\<rparr>"

definition full_schema :: "(string \<times> string) list" where
  "full_schema =
     [(''Name'', ''title''), (''Type'', ''select''), (''Status'', ''select''),
      (''File Path'', ''rich_text''), (''Line Number'', ''rich_text''),
      (''TODO_ID'', ''rich_text'')]"

definition new_page_id :: "store \<Rightarrow> string" where
  "new_page_id w = ''page-'' @ string_of_nat (next_page w)"

definition keeping_client :: "store notion_client" where
  "keeping_client =
     \<lparr>databases_query = (\<lambda>d w. (Inr (store_pages w), w)),
      databases_retrieve = (\<lambda>d w. (Inr full_schema, w)),
      pages_create = (\<lambda>d props w.
         (Inr (new_page_id w),
          \<lparr>next_page = next_page w + 1,
           store_pages = store_pages w @ [written_page (new_page_id w) props]\<rparr>)),
      pages_update = (\<lambda>r b w.
         case r of
           CachedTodo t \<Rightarrow> (Inl (Error ''page_id should be a string''), w)
         | PageKey k \<Rightarrow>
             (case b of
                SetProperties props \<Rightarrow>
                  (Inr (),
                   w\<lparr>store_pages :=
                       map (\<lambda>p. if page_id p = k then rewritten_page props p else p)
                         (store_pages w)\<rparr>)
              | SetArchived a \<Rightarrow>
                  (Inr (),
                   w\<lparr>store_pages :=
                       filter (\<lambda>p. page_id p \<noteq> k \<or> \<not> a) (store_pages w)\<rparr>)))\<rparr>"

text \<open>
  The empty store, the payload \<open>createTodo\<close> and \<open>updateTodo\<close> send for the record
  \<open>abc-123\<close>, the page the store holds for it, and the store with that page.
\<close>

definition empty_store :: store where
  "empty_store = \<lparr>next_page = 1, store_pages = []\<rparr>"

definition fixme_properties :: properties where
  "fixme_properties =
     \<lparr>prop_Name = ''handle edge case'', prop_Type = ''FIXME'', prop_Status = ''Not started'',
      prop_File_Path = Some ''/src/a.js'', prop_Line_Number = Some ''1'',
      prop_TODO_ID = Some ''abc-123''\<rparr>"

definition synced_page :: page where
  "synced_page =
     \<lparr>page_id = ''page-1'', page_Name = [''handle edge case''], page_TODO_ID = [''abc-123''],
      page_File_Path = [''/src/a.js''], page_Line_Number = None, page_Type = Some ''FIXME'',
      page_Status = Some ''Not started''\<rparr>"

definition synced_store :: store where
  "synced_store = \<lparr>next_page = 2, store_pages = [synced_page]\<rparr>"

section \<open>Properties of the push pass\<close>

subsection \<open>What a pass classifies\<close>

lemma ops_send [simp]: "ops (send rq w st) = ops st"
  by (simp add: send_def)

lemma ops_classify [simp]: "ops (classify x st) = ops st @ [x]"
  by (simp add: classify_def)

lemma calls_classify [simp]: "calls (classify x st) = calls st"
  by (simp add: classify_def)

lemma calls_send [simp]: "calls (send rq w st) = calls st @ [rq]"
  by (simp add: send_def)

lemma ops_listDatabaseProperties [simp]:
  "ops (snd (listDatabaseProperties cl cr st)) = ops st"
  by (simp add: listDatabaseProperties_def split: prod.splits sum.splits)

lemma ops_fetchNotionState [simp]: "ops (snd (fetchNotionState cl cr st)) = ops st"
  by (simp add: fetchNotionState_def split: prod.splits sum.splits)

lemma ops_createTodo [simp]: "ops (snd (createTodo cl cr t st)) = ops st @ [CREATE t]"
  by (simp add: createTodo_def Let_def split: prod.splits sum.splits)
    (metis ops_listDatabaseProperties ops_classify snd_conv)+

lemma ops_updateTodo [simp]:
  "ops (snd (updateTodo cl cr pid t st)) = ops st @ [UPDATE pid t]"
  by (simp add: updateTodo_def Let_def split: prod.splits sum.splits)
    (metis ops_listDatabaseProperties ops_classify snd_conv)+

lemma ops_deleteTodo [simp]: "ops (snd (deleteTodo cl cr x st)) = ops st @ [DELETE x]"
  by (simp add: deleteTodo_def Let_def split: prod.splits sum.splits)

lemma ops_delete_marked:
  "ops (delete_marked cl cr ds st) = ops st @ map (\<lambda>d. DELETE (CachedTodo d)) ds"
  by (induction ds arbitrary: st) simp_all

lemma process_todos_ops:
  "process_todos cl cr idx byPage ts cs us st = (e, cs', us', st') \<Longrightarrow>
   set (ops st') \<subseteq> set (ops st) \<union> {CREATE t |t. t \<in> set ts \<and> creates idx t}
      \<union> {UPDATE pid t |pid t. t \<in> set ts \<and> updates idx byPage pid t}
   \<and> set cs' \<subseteq> set cs \<union> {t \<in> set ts. creates idx t}
   \<and> set us' \<subseteq> set us \<union> {t \<in> set ts. \<exists>pid. updates idx byPage pid t}"
proof (induction ts arbitrary: cs us st)
  case Nil
  then show ?case by simp
next
  case (Cons t ts)
  show ?case
  proof (cases "truthy (todo_id t)")
    case False
    with Cons.prems have "process_todos cl cr idx byPage ts cs us st = (e, cs', us', st')"
      by simp
    from Cons.IH [OF this] show ?thesis by auto
  next
    case idt: True
    show ?thesis
    proof (cases "obj_get idx (the (todo_id t))")
      case (Own pid)
      show ?thesis
      proof (cases "pid = []")
        case True
        obtain n s where c: "createTodo cl cr t st = (n, s)" by force
        with Cons.prems idt Own True
        have "process_todos cl cr idx byPage ts (if truthy n then cs @ [t] else cs) us s
                = (e, cs', us', st')" by simp
        from Cons.IH [OF this] have ih:
          "set (ops st') \<subseteq> set (ops s) \<union> {CREATE t |t. t \<in> set ts \<and> creates idx t}
            \<union> {UPDATE pid t |pid t. t \<in> set ts \<and> updates idx byPage pid t}"
          "set cs' \<subseteq> set (if truthy n then cs @ [t] else cs) \<union> {t \<in> set ts. creates idx t}"
          "set us' \<subseteq> set us \<union> {t \<in> set ts. \<exists>pid. updates idx byPage pid t}"
          by blast+
        have cr: "creates idx t" using idt Own True by (simp add: creates_def)
        have os: "ops s = ops st @ [CREATE t]" using ops_createTodo [of cl cr t st] c by simp
        show ?thesis using ih cr os by (auto split: if_splits)
      next
        case ne: False
        show ?thesis
        proof (cases "obj_get byPage pid")
          case (Own nt)
          show ?thesis
          proof (cases "needsUpdate nt t")
            case True
            obtain b s where c: "updateTodo cl cr pid t st = (b, s)" by force
            with Cons.prems idt \<open>obj_get idx (the (todo_id t)) = Own pid\<close> ne Own True
            have "process_todos cl cr idx byPage ts cs (if b then us @ [t] else us) s
                = (e, cs', us', st')" by simp
            from Cons.IH [OF this] have ih:
              "set (ops st') \<subseteq> set (ops s) \<union> {CREATE t |t. t \<in> set ts \<and> creates idx t}
               \<union> {UPDATE pid t |pid t. t \<in> set ts \<and> updates idx byPage pid t}"
              "set cs' \<subseteq> set cs \<union> {t \<in> set ts. creates idx t}"
              "set us' \<subseteq> set (if b then us @ [t] else us) \<union> {t \<in> set ts. \<exists>pid. updates idx byPage pid t}"
              by blast+
            have up: "updates idx byPage pid t"
              using idt \<open>obj_get idx (the (todo_id t)) = Own pid\<close> ne Own True
              by (auto simp add: updates_def)
            have os: "ops s = ops st @ [UPDATE pid t]"
              using ops_updateTodo [of cl cr pid t st] c by simp
            show ?thesis using ih up os by (auto split: if_splits)
          next
            case False
            with Cons.prems idt \<open>obj_get idx (the (todo_id t)) = Own pid\<close> ne Own
            have "process_todos cl cr idx byPage ts cs us st = (e, cs', us', st')" by simp
            from Cons.IH [OF this] show ?thesis by auto
          qed
        next
          case Inherited
          with Cons.prems idt \<open>obj_get idx (the (todo_id t)) = Own pid\<close> ne
          show ?thesis by auto
        next
          case Undefined
          with Cons.prems idt \<open>obj_get idx (the (todo_id t)) = Own pid\<close> ne
          show ?thesis by auto
        qed
      qed
    next
      case Inherited
      with Cons.prems idt show ?thesis by auto
    next
      case Undefined
      obtain n s where c: "createTodo cl cr t st = (n, s)" by force
      with Cons.prems idt Undefined
      have "process_todos cl cr idx byPage ts (if truthy n then cs @ [t] else cs) us s
                = (e, cs', us', st')" by simp
      from Cons.IH [OF this] have ih:
          "set (ops st') \<subseteq> set (ops s) \<union> {CREATE t |t. t \<in> set ts \<and> creates idx t}
            \<union> {UPDATE pid t |pid t. t \<in> set ts \<and> updates idx byPage pid t}"
          "set cs' \<subseteq> set (if truthy n then cs @ [t] else cs) \<union> {t \<in> set ts. creates idx t}"
          "set us' \<subseteq> set us \<union> {t \<in> set ts. \<exists>pid. updates idx byPage pid t}"
        by blast+
      have cr: "creates idx t" using idt Undefined by (simp add: creates_def)
      have os: "ops s = ops st @ [CREATE t]" using ops_createTodo [of cl cr t st] c by simp
      show ?thesis using ih cr os by (auto split: if_splits)
    qed
  qed
qed

text \<open>
  A pass that ends without exception has invoked \<open>createTodo\<close> or \<open>updateTodo\<close> for every
  record that satisfies the branch condition, whatever the client answered to the
  earlier requests: a failed request does not end the loop.
\<close>

lemma process_todos_mono:
  "process_todos cl cr idx byPage ts cs us st = (e, cs', us', st') \<Longrightarrow>
     set (ops st) \<subseteq> set (ops st')"
proof (induction ts arbitrary: cs us st)
  case Nil
  then show ?case by simp
next
  case (Cons t ts)
  obtain n s where c: "createTodo cl cr t st = (n, s)" by force
  have cs: "set (ops st) \<subseteq> set (ops s)" using ops_createTodo [of cl cr t st] c by auto
  show ?case
  proof (cases "truthy (todo_id t)")
    case False
    with Cons show ?thesis by simp
  next
    case idt: True
    show ?thesis
    proof (cases "obj_get idx (the (todo_id t))")
      case (Own pid)
      obtain b s' where u: "updateTodo cl cr pid t st = (b, s')" by force
      have us: "set (ops st) \<subseteq> set (ops s')" using ops_updateTodo [of cl cr pid t st] u by auto
      show ?thesis
      proof (cases "pid = []")
        case True
        with Cons.prems idt Own c
        have "process_todos cl cr idx byPage ts (if truthy n then cs @ [t] else cs) us s
                = (e, cs', us', st')" by simp
        from Cons.IH [OF this] cs show ?thesis by blast
      next
        case ne: False
        show ?thesis
        proof (cases "obj_get byPage pid")
          case nt: (Own nt)
          show ?thesis
          proof (cases "needsUpdate nt t")
            case True
            with Cons.prems idt Own ne nt u
            have "process_todos cl cr idx byPage ts cs (if b then us @ [t] else us) s'
                = (e, cs', us', st')" by simp
            from Cons.IH [OF this] us show ?thesis by blast
          next
            case False
            with Cons.prems idt Own ne nt
            have "process_todos cl cr idx byPage ts cs us st = (e, cs', us', st')" by simp
            from Cons.IH [OF this] show ?thesis .
          qed
        next
          case Inherited
          with Cons.prems idt Own ne show ?thesis by auto
        next
          case Undefined
          with Cons.prems idt Own ne show ?thesis by auto
        qed
      qed
    next
      case Inherited
      with Cons.prems idt show ?thesis by auto
    next
      case Undefined
      with Cons.prems idt c
      have "process_todos cl cr idx byPage ts (if truthy n then cs @ [t] else cs) us s
                = (e, cs', us', st')" by simp
      from Cons.IH [OF this] cs show ?thesis by blast
    qed
  qed
qed

lemma process_todos_attempts:
  "process_todos cl cr idx byPage ts cs us st = (None, cs', us', st') \<Longrightarrow>
     (\<forall>t \<in> set ts. creates idx t \<longrightarrow> CREATE t \<in> set (ops st')) \<and>
     (\<forall>t \<in> set ts. \<forall>pid. updates idx byPage pid t \<longrightarrow> UPDATE pid t \<in> set (ops st'))"
proof (induction ts arbitrary: cs us st)
  case Nil
  then show ?case by simp
next
  case (Cons t ts)
  let ?goal = "\<lambda>st'. (\<forall>t \<in> set ts. creates idx t \<longrightarrow> CREATE t \<in> set (ops st')) \<and>
     (\<forall>t \<in> set ts. \<forall>pid. updates idx byPage pid t \<longrightarrow> UPDATE pid t \<in> set (ops st'))"
  obtain n s where c: "createTodo cl cr t st = (n, s)" by force
  have cs: "CREATE t \<in> set (ops s)" using ops_createTodo [of cl cr t st] c by auto
  show ?case
  proof (cases "truthy (todo_id t)")
    case False
    then have no: "\<not> creates idx t" "\<And>pid. \<not> updates idx byPage pid t"
      by (simp_all add: creates_def updates_def)
    from False Cons.prems have "process_todos cl cr idx byPage ts cs us st = (None, cs', us', st')"
      by simp
    from Cons.IH [OF this] no show ?thesis by simp
  next
    case idt: True
    show ?thesis
    proof (cases "obj_get idx (the (todo_id t))")
      case (Own pid)
      obtain b s' where u: "updateTodo cl cr pid t st = (b, s')" by force
      have us: "UPDATE pid t \<in> set (ops s')" using ops_updateTodo [of cl cr pid t st] u by auto
      show ?thesis
      proof (cases "pid = []")
        case True
        then have no: "\<And>p. \<not> updates idx byPage p t" using Own by (simp add: updates_def)
        from True Cons.prems idt Own c
        have p: "process_todos cl cr idx byPage ts (if truthy n then cs @ [t] else cs) us s
                = (None, cs', us', st')" by simp
        from process_todos_mono [OF p] cs have "CREATE t \<in> set (ops st')" by blast
        with Cons.IH [OF p] no show ?thesis by simp
      next
        case ne: False
        then have noc: "\<not> creates idx t" using Own idt by (simp add: creates_def)
        show ?thesis
        proof (cases "obj_get byPage pid")
          case nt: (Own nt)
          show ?thesis
          proof (cases "needsUpdate nt t")
            case True
            with Cons.prems idt Own ne nt u
            have p: "process_todos cl cr idx byPage ts cs (if b then us @ [t] else us) s'
                = (None, cs', us', st')" by simp
            from process_todos_mono [OF p] us have "UPDATE pid t \<in> set (ops st')" by blast
            moreover have "\<And>p. updates idx byPage p t \<Longrightarrow> p = pid"
              using Own by (simp add: updates_def)
            ultimately show ?thesis using Cons.IH [OF p] noc by auto
          next
            case False
            then have "\<And>p. \<not> updates idx byPage p t" using Own nt by (auto simp add: updates_def)
            moreover from False Cons.prems idt Own ne nt
            have "process_todos cl cr idx byPage ts cs us st = (None, cs', us', st')" by simp
            ultimately show ?thesis using Cons.IH noc by simp
          qed
        next
          case Inherited
          with Cons.prems idt Own ne show ?thesis by auto
        next
          case Undefined
          with Cons.prems idt Own ne show ?thesis by auto
        qed
      qed
    next
      case Inherited
      with Cons.prems idt show ?thesis by auto
    next
      case Undefined
      then have no: "\<And>p. \<not> updates idx byPage p t" by (simp add: updates_def)
      from Undefined Cons.prems idt c
      have p: "process_todos cl cr idx byPage ts (if truthy n then cs @ [t] else cs) us s
                = (None, cs', us', st')" by simp
      from process_todos_mono [OF p] cs have "CREATE t \<in> set (ops st')" by blast
      with Cons.IH [OF p] no show ?thesis by simp
    qed
  qed
qed

subsection \<open>The index of remote identifiers\<close>

lemma map_of_obj_set:
  "map_of (obj_set ob k v) k' =
     (if k' = k \<and> k \<noteq> proto_key then Some v else map_of ob k')"
  by (simp add: obj_set_def update_conv')

lemma customIdToPageId_snoc:
  "customIdToPageId (ts @ [t]) =
     (if task_customId t \<noteq> [] then obj_set (customIdToPageId ts) (task_customId t) (task_id t)
      else customIdToPageId ts)"
  by (simp add: customIdToPageId_def)

lemma customIdToPageId_Some:
  "map_of (customIdToPageId ts) k = Some v \<Longrightarrow>
     \<exists>t \<in> set ts. task_customId t = k \<and> task_id t = v"
proof (induction ts arbitrary: v rule: rev_induct)
  case Nil
  then show ?case by (simp add: customIdToPageId_def)
next
  case (snoc t ts)
  then show ?case
    by (auto simp add: customIdToPageId_snoc map_of_obj_set split: if_splits)
qed

lemma customIdToPageId_None:
  "map_of (customIdToPageId ts) k = None \<Longrightarrow> t \<in> set ts \<Longrightarrow> task_customId t = k \<Longrightarrow>
     k = [] \<or> k = proto_key"
proof (induction ts rule: rev_induct)
  case Nil
  then show ?case by simp
next
  case (snoc u ts)
  then show ?case
    by (auto simp add: customIdToPageId_snoc map_of_obj_set split: if_splits)
qed

lemma remote_identifier_truthy:
  assumes "t \<in> set ts" and "task_customId t = k" and "k \<noteq> []"
    and "\<forall>u \<in> set ts. task_customId u = k \<longrightarrow> task_id u \<noteq> []"
  shows "truthy_lookup (obj_get (customIdToPageId ts) k)"
proof (cases "map_of (customIdToPageId ts) k")
  case None
  with customIdToPageId_None assms have "k = proto_key" by blast
  with None show ?thesis by (simp add: obj_get_def proto_names_def)
next
  case (Some v)
  with customIdToPageId_Some assms(4) have "v \<noteq> []" by blast
  with Some show ?thesis by (simp add: obj_get_def)
qed

lemma ops_syncTodos:
  "set (ops (snd (syncTodos cl cr todos cachedTodos st)))
     \<subseteq> set (ops st)
       \<union> {CREATE t |t. t \<in> set todos \<and>
             creates (customIdToPageId (fst (fetchNotionState cl cr st))) t}
       \<union> {UPDATE pid t |pid t. t \<in> set todos \<and>
             updates (customIdToPageId (fst (fetchNotionState cl cr st)))
               (notionTaskByPageId (fst (fetchNotionState cl cr st))) pid t}
       \<union> {DELETE (CachedTodo d) |d.
             d \<in> set (marked_for_deletion
                        (customIdToPageId (fst (fetchNotionState cl cr st))) cachedTodos)}"
proof (cases "\<not> truthy (token cr) \<or> databaseId cr = []")
  case True
  then show ?thesis by (auto simp add: syncTodos_def)
next
  case False
  obtain ts st1 where f: "fetchNotionState cl cr st = (ts, st1)" by force
  obtain e cs us st2 where
    p: "process_todos cl cr (customIdToPageId ts) (notionTaskByPageId ts) todos [] [] st1
          = (e, cs, us, st2)"
    using prod_cases4 by blast
  have o1: "ops st1 = ops st" using ops_fetchNotionState [of cl cr st] f by simp
  from process_todos_ops [OF p] o1
  have b: "set (ops st2) \<subseteq> set (ops st)
      \<union> {CREATE t |t. t \<in> set todos \<and> creates (customIdToPageId ts) t}
      \<union> {UPDATE pid t |pid t. t \<in> set todos \<and>
            updates (customIdToPageId ts) (notionTaskByPageId ts) pid t}"
    by simp
  show ?thesis
  proof (cases e)
    case None
    with False f p have "snd (syncTodos cl cr todos cachedTodos st)
      = delete_marked cl cr (marked_for_deletion (customIdToPageId ts) cachedTodos) st2"
      by (simp add: syncTodos_def Let_def)
    with b f show ?thesis by (auto simp add: ops_delete_marked)
  next
    case (Some x)
    with False f p have "snd (syncTodos cl cr todos cachedTodos st) = st2"
      by (simp add: syncTodos_def Let_def)
    with b f show ?thesis by auto
  qed
qed

lemma created_syncTodos:
  "set (created (fst (syncTodos cl cr todos cachedTodos st)))
     \<subseteq> {t \<in> set todos. creates (customIdToPageId (fst (fetchNotionState cl cr st))) t}"
proof (cases "\<not> truthy (token cr) \<or> databaseId cr = []")
  case True
  then show ?thesis by (auto simp add: syncTodos_def empty_result_def)
next
  case False
  obtain ts st1 where f: "fetchNotionState cl cr st = (ts, st1)" by force
  obtain e cs us st2 where
    p: "process_todos cl cr (customIdToPageId ts) (notionTaskByPageId ts) todos [] [] st1
          = (e, cs, us, st2)"
    using prod_cases4 by blast
  from process_todos_ops [OF p]
  have b: "set cs \<subseteq> {t \<in> set todos. creates (customIdToPageId ts) t}" by simp
  show ?thesis
  proof (cases e)
    case None
    with False f p have "created (fst (syncTodos cl cr todos cachedTodos st)) = cs"
      by (simp add: syncTodos_def Let_def)
    with b f show ?thesis by auto
  next
    case (Some x)
    with False f p have "created (fst (syncTodos cl cr todos cachedTodos st)) = []"
      by (simp add: syncTodos_def Let_def empty_result_def)
    then show ?thesis by simp
  qed
qed

text \<open>
  C2 (join correctness). A local record whose identifier is the embedded identifier of a
  task fetched at the start of the pass is never classified CREATE: \<open>createTodo\<close> is not
  invoked for it and it is not among the created records. Page ids are assigned by the
  store and are not empty.
\<close>

theorem join_correctness:
  assumes "t \<in> set (fst (fetchNotionState cl cr (start w)))"
    and "task_customId t = k" and "k \<noteq> []"
    and "\<forall>u \<in> set (fst (fetchNotionState cl cr (start w))).
           task_customId u = k \<longrightarrow> task_id u \<noteq> []"
    and "todo_id r = Some k"
  shows "CREATE r \<notin> set (ops (snd (syncTodos cl cr todos cachedTodos (start w)))) \<and>
         r \<notin> set (created (fst (syncTodos cl cr todos cachedTodos (start w))))"
proof -
  have "truthy_lookup (obj_get (customIdToPageId (fst (fetchNotionState cl cr (start w)))) k)"
    using remote_identifier_truthy assms(1-4) by blast
  then have nc: "\<not> creates (customIdToPageId (fst (fetchNotionState cl cr (start w)))) r"
    using assms(5) by (simp add: creates_def)
  have "CREATE r \<notin> set (ops (snd (syncTodos cl cr todos cachedTodos (start w))))"
    using ops_syncTodos [of cl cr todos cachedTodos "start w"] nc
    by (auto simp add: start_def)
  moreover have "r \<notin> set (created (fst (syncTodos cl cr todos cachedTodos (start w))))"
    using created_syncTodos [of cl cr todos cachedTodos "start w"] nc by auto
  ultimately show ?thesis by simp
qed

theorem join_correctness_witness:
  "CREATE fixme_todo \<notin> set (ops (snd (syncTodos (ok_client [fixme_page]) some_credentials
      [fixme_todo] [] (start ())))) \<and>
   fixme_todo \<notin> set (created (fst (syncTodos (ok_client [fixme_page]) some_credentials
      [fixme_todo] [] (start ()))))"
proof -
  have f: "fst (fetchNotionState (ok_client [fixme_page]) some_credentials (start ()))
             = [page_to_task fixme_page]"
    by (simp add: fetchNotionState_def ok_client_def some_credentials_def)
  show ?thesis
    using join_correctness [of "page_to_task fixme_page" "ok_client [fixme_page]"
        some_credentials "()" "''abc-123''" fixme_todo "[fixme_todo]" "[]"]
    unfolding f
    by (simp add: page_to_task_def fixme_page_def fixme_todo_def)
qed

subsection \<open>The cache of a file\<close>

text \<open>\<open>syncTodosOnSave\<close> caches every record under its own identifier.\<close>

lemma cache_of_snoc:
  "cache_of (ts @ [t]) =
     (if truthy (todo_id t) then obj_set (cache_of ts) (the (todo_id t)) t else cache_of ts)"
  by (simp add: cache_of_def)

lemma set_update_subset: "set (AList.update k v al) \<subseteq> insert (k, v) (set al)"
  by (induction al) auto

lemma set_obj_set: "set (obj_set ob k v) \<subseteq> insert (k, v) (set ob)"
  using set_update_subset [of k v ob] by (auto simp add: obj_set_def)

lemma truthy_Some: "truthy x \<Longrightarrow> x = Some (the x)"
  by (cases x) simp_all

lemma cache_of_keys: "(k, v) \<in> set (cache_of todos) \<Longrightarrow> todo_id v = Some k"
proof (induction todos rule: rev_induct)
  case Nil
  then show ?case by (simp add: cache_of_def)
next
  case (snoc t ts)
  show ?case
  proof (cases "truthy (todo_id t)")
    case False
    with snoc show ?thesis by (simp add: cache_of_snoc)
  next
    case True
    with snoc.prems have m: "(k, v) \<in> set (obj_set (cache_of ts) (the (todo_id t)) t)"
      by (simp add: cache_of_snoc)
    have "set (obj_set (cache_of ts) (the (todo_id t)) t)
        \<subseteq> insert (the (todo_id t), t) (set (cache_of ts))"
      by (rule set_obj_set)
    with m have "(k, v) = (the (todo_id t), t) \<or> (k, v) \<in> set (cache_of ts)"
      by (simp add: subset_iff)
    then show ?thesis
    proof
      assume "(k, v) = (the (todo_id t), t)"
      then have "k = the (todo_id t)" "v = t" by simp_all
      with truthy_Some [OF True] show ?thesis by simp
    next
      assume "(k, v) \<in> set (cache_of ts)"
      then show ?thesis by (rule snoc.IH)
    qed
  qed
qed

subsection \<open>Records that need no update\<close>

lemma marked_for_deletion_falsy:
  "d \<in> set (marked_for_deletion idx cachedTodos) \<Longrightarrow>
     \<exists>k. (k, d) \<in> set cachedTodos \<and> \<not> truthy_lookup (obj_get idx k)"
  by (auto simp add: marked_for_deletion_def split: if_splits option.splits)
    (metis map_of_SomeD)

text \<open>
  When the task selected by the identifier of a record has the same text, file path,
  line number, type and status, the record is neither created nor updated, and no cached
  record with its identifier is archived. The task has a line number only when
  \<open>Line Number\<close> of its page is a number: that is a page written by hand into a
  number-typed column, as the one of the example.
\<close>

lemma skip_when_fields_equal:
  assumes "obj_get (customIdToPageId (fst (fetchNotionState cl cr (start w)))) k = Own pid"
    and "pid \<noteq> []"
    and "obj_get (notionTaskByPageId (fst (fetchNotionState cl cr (start w)))) pid = Own nt"
    and "task_text nt = todo_text r" and "task_filePath nt = todo_filePath r"
    and "task_lineNumber nt = Some (int (todo_lineNumber r))"
    and "task_type nt = todo_type r" and "task_status nt = todo_status r"
    and "todo_id r = Some k"
    and "\<forall>(k', v) \<in> set cachedTodos. todo_id v = Some k'"
  shows "CREATE r \<notin> set (ops (snd (syncTodos cl cr todos cachedTodos (start w)))) \<and>
         (\<forall>p. UPDATE p r \<notin> set (ops (snd (syncTodos cl cr todos cachedTodos (start w))))) \<and>
         (\<forall>d. DELETE (CachedTodo d) \<in> set (ops (snd (syncTodos cl cr todos cachedTodos (start w))))
               \<longrightarrow> todo_id d \<noteq> Some k)"
proof -
  let ?ts = "fst (fetchNotionState cl cr (start w))"
  let ?ops = "set (ops (snd (syncTodos cl cr todos cachedTodos (start w))))"
  have bound: "?ops \<subseteq>
       {CREATE t |t. t \<in> set todos \<and> creates (customIdToPageId ?ts) t}
     \<union> {UPDATE p t |p t. t \<in> set todos \<and>
           updates (customIdToPageId ?ts) (notionTaskByPageId ?ts) p t}
     \<union> {DELETE (CachedTodo d) |d.
           d \<in> set (marked_for_deletion (customIdToPageId ?ts) cachedTodos)}"
    using ops_syncTodos [of cl cr todos cachedTodos "start w"] by (simp add: start_def)
  have nu: "\<not> needsUpdate nt r"
    using assms(4-8) by (simp add: needsUpdate_def)
  have nc: "\<not> creates (customIdToPageId ?ts) r"
    using assms(1,2,9) by (simp add: creates_def)
  have nupd: "\<not> updates (customIdToPageId ?ts) (notionTaskByPageId ?ts) p r" for p
    using assms(1,3,9) nu by (auto simp add: updates_def)
  have c1: "CREATE r \<notin> ?ops" using bound nc by auto
  have c2: "UPDATE p r \<notin> ?ops" for p using bound nupd by auto
  have c3: "todo_id d \<noteq> Some k" if "DELETE (CachedTodo d) \<in> ?ops" for d
  proof -
    from that bound
    have "d \<in> set (marked_for_deletion (customIdToPageId ?ts) cachedTodos)" by auto
    then obtain k' where k': "(k', d) \<in> set cachedTodos"
      "\<not> truthy_lookup (obj_get (customIdToPageId ?ts) k')"
      using marked_for_deletion_falsy by blast
    from k'(1) assms(10) have "todo_id d = Some k'" by auto
    moreover from k'(2) assms(1,2) have "k' \<noteq> k" by auto
    ultimately show ?thesis by simp
  qed
  from c1 c2 c3 show ?thesis by blast
qed

lemma skip_when_fields_equal_example:
  "calls (snd (syncTodos (ok_client [fixme_page]) some_credentials [fixme_todo]
      (cache_of [fixme_todo]) (start ()))) = [DatabasesQuery ''db''] \<and>
   CREATE fixme_todo \<notin> set (ops (snd (syncTodos (ok_client [fixme_page]) some_credentials
      [fixme_todo] (cache_of [fixme_todo]) (start ())))) \<and>
   (\<forall>p. UPDATE p fixme_todo \<notin> set (ops (snd (syncTodos (ok_client [fixme_page])
      some_credentials [fixme_todo] (cache_of [fixme_todo]) (start ())))))"
proof -
  have k: "\<forall>(k', v) \<in> set (cache_of [fixme_todo]). todo_id v = Some k'"
    using cache_of_keys by blast
  have f: "fst (fetchNotionState (ok_client [fixme_page]) some_credentials (start ()))
             = [page_to_task fixme_page]"
    by (simp add: fetchNotionState_def ok_client_def some_credentials_def)
  have c: "calls (snd (syncTodos (ok_client [fixme_page]) some_credentials [fixme_todo]
      (cache_of [fixme_todo]) (start ()))) = [DatabasesQuery ''db'']"
    by code_simp
  show ?thesis
    using c k skip_when_fields_equal [of "ok_client [fixme_page]" some_credentials "()"
        "''abc-123''" "''page-1''" "page_to_task fixme_page" fixme_todo
        "cache_of [fixme_todo]" "[fixme_todo]"]
    unfolding f
    by (simp add: page_to_task_def fixme_page_def fixme_todo_def customIdToPageId_def
        notionTaskByPageId_def obj_get_def obj_set_def proto_key_def)
qed

subsection \<open>Records the extension has written itself\<close>

text \<open>
  \<open>fetchNotionState\<close> leaves \<open>lineNumber\<close> undefined unless \<open>Line Number\<close> is a number, and
  the comparison \<open>notionTask.lineNumber !== todo.lineNumber\<close> is then true whatever the
  other fields are.
\<close>

lemma needsUpdate_without_number: "task_lineNumber nt = None \<Longrightarrow> needsUpdate nt r"
  by (simp add: needsUpdate_def)

lemma written_page_without_number:
  "task_lineNumber (page_to_task (written_page pid props)) = None"
  by (simp add: page_to_task_def written_page_def)

lemma rewritten_page_without_number:
  "page_Line_Number p = None \<Longrightarrow>
     task_lineNumber (page_to_task (rewritten_page props p)) = None"
  by (simp add: page_to_task_def rewritten_page_def)

lemma unnumbered_task_updated:
  assumes "process_todos cl cr idx byPage ts cs us st = (None, cs', us', st')"
    and "r \<in> set ts" and "todo_id r = Some k" and "k \<noteq> []"
    and "obj_get idx k = Own pid" and "pid \<noteq> []"
    and "obj_get byPage pid = Own nt" and "task_lineNumber nt = None"
  shows "UPDATE pid r \<in> set (ops st')"
proof -
  have "updates idx byPage pid r"
    using assms(3-8) needsUpdate_without_number [of nt r] by (auto simp add: updates_def)
  with process_todos_attempts [OF assms(1)] assms(2) show ?thesis by blast
qed

lemma synced_page_written:
  "todo_properties (Some full_schema) fixme_todo = fixme_properties \<and>
   written_page ''page-1'' fixme_properties = synced_page \<and>
   rewritten_page fixme_properties synced_page = synced_page"
  by code_simp

text \<open>
  C5 (no-op on an identical record) does not hold of the code for a page the extension
  has written. \<open>createTodo\<close> and \<open>updateTodo\<close> send \<open>Line Number\<close> as a rich text and
  \<open>fetchNotionState\<close> reads it only as a number, so the task read back has no line number
  and the comparison finds a difference on every pass, although the loop means to skip
  an unchanged record. Here the first pass creates the page of the record \<open>abc-123\<close>. The
  second pass, over the same record, finds that page, equal to the record in text, file
  path, type, status and identifier, and sends \<open>pages.update\<close>; it leaves the store as it
  found it, so every later pass does the same.
\<close>

theorem identical_record_updated_every_pass:
  "syncTodos keeping_client some_credentials [fixme_todo] [] (start empty_store)
     = (\<lparr>created = [fixme_todo], updated = [], deleted = []\<rparr>,
        \<lparr>world = synced_store, ops = [CREATE fixme_todo],
         calls = [DatabasesQuery ''db'', DatabasesRetrieve ''db'',
                  PagesCreate ''db'' fixme_properties]\<rparr>) \<and>
   task_customId (page_to_task synced_page) = ''abc-123'' \<and>
   task_text (page_to_task synced_page) = todo_text fixme_todo \<and>
   task_filePath (page_to_task synced_page) = todo_filePath fixme_todo \<and>
   task_type (page_to_task synced_page) = todo_type fixme_todo \<and>
   task_status (page_to_task synced_page) = todo_status fixme_todo \<and>
   syncTodos keeping_client some_credentials [fixme_todo] (cache_of [fixme_todo])
       (start synced_store)
     = (\<lparr>created = [], updated = [fixme_todo], deleted = []\<rparr>,
        \<lparr>world = synced_store, ops = [UPDATE ''page-1'' fixme_todo],
         calls = [DatabasesQuery ''db'', DatabasesRetrieve ''db'',
                  PagesUpdate (PageKey ''page-1'') (SetProperties fixme_properties)]\<rparr>)"
  by code_simp

theorem identical_record_updated_every_pass_witness:
  "UPDATE ''page-1'' fixme_todo \<in> set (ops (snd (syncTodos keeping_client some_credentials
     [fixme_todo] (cache_of [fixme_todo]) (start synced_store))))"
  using identical_record_updated_every_pass by simp

subsection \<open>The deletion path on concrete passes\<close>

text \<open>
  In the passes below the cache is the one \<open>syncTodosOnSave\<close> stored after the previous
  pass over the records named.
\<close>

text \<open>
  C1 (deletion requires absence from the current extraction) does not hold of the code.
  The deletion loop tests the cached identifier against the index of remote identifiers,
  not against the current records. Here the store holds a page without embedded
  identifier; the record \<open>abc-123\<close> is cached and still extracted, and the pass
  classifies it both CREATE and DELETE.
\<close>

theorem deletion_ignores_current_records:
  "fixme_todo \<in> set [fixme_todo] \<and>
   ops (snd (syncTodos (ok_client [fixme_page\<lparr>page_TODO_ID := []\<rparr>]) some_credentials
     [fixme_todo] (cache_of [fixme_todo]) (start ())))
     = [CREATE fixme_todo, DELETE (CachedTodo fixme_todo)] \<and>
   deleted (fst (syncTodos (ok_client [fixme_page\<lparr>page_TODO_ID := []\<rparr>]) some_credentials
     [fixme_todo] (cache_of [fixme_todo]) (start ()))) = [fixme_todo]"
  by code_simp

theorem deletion_ignores_current_records_witness:
  "DELETE (CachedTodo fixme_todo) \<in> set (ops (snd (syncTodos
     (ok_client [fixme_page\<lparr>page_TODO_ID := []\<rparr>]) some_credentials
     [fixme_todo] (cache_of [fixme_todo]) (start ()))))"
  using deletion_ignores_current_records by simp

text \<open>
  C3 (an empty snapshot is not a reason to delete) does not hold of the code. When the
  query fails, \<open>fetchNotionState\<close> returns the empty array, and the pass then marks every
  cached record for deletion, the one still present in the buffer included.
\<close>

theorem empty_snapshot_deletes_cache:
  "fst (fetchNotionState offline_client some_credentials (start ())) = [] \<and>
   deleted (fst (syncTodos offline_client some_credentials [fixme_todo]
     (cache_of [fixme_todo, removed_todo]) (start ())))
     = [fixme_todo, removed_todo]"
  by code_simp

theorem empty_snapshot_deletes_cache_witness:
  "fixme_todo \<in> set (deleted (fst (syncTodos offline_client some_credentials [fixme_todo]
     (cache_of [fixme_todo, removed_todo]) (start ()))))"
  using empty_snapshot_deletes_cache by simp

text \<open>
  C6 (archive by remote key) does not hold of the code. A cached identifier is marked
  only when the index has no page for it, and what is passed to \<open>deleteTodo\<close> as the page
  id is the cached record. The request itself is an update setting \<open>archived\<close>.
\<close>

theorem archive_receives_cached_record:
  "calls (snd (syncTodos (ok_client [fixme_page]) some_credentials [fixme_todo]
     (cache_of [fixme_todo, removed_todo]) (start ())))
     = [DatabasesQuery ''db'', PagesUpdate (CachedTodo removed_todo) (SetArchived True)]"
  by code_simp

theorem archive_receives_cached_record_witness:
  "PagesUpdate (CachedTodo removed_todo) (SetArchived True) \<in> set (calls (snd (syncTodos
     (ok_client [fixme_page]) some_credentials [fixme_todo]
     (cache_of [fixme_todo, removed_todo]) (start ()))))"
  using archive_receives_cached_record by simp

text \<open>
  When the store does hold a page for the removed marker, nothing is classified at all.
\<close>

lemma removed_marker_with_remote_record:
  "ops (snd (syncTodos (ok_client [fixme_page, removed_page]) some_credentials [fixme_todo]
     (cache_of [fixme_todo, removed_todo]) (start ()))) = []"
  by code_simp

text \<open>
  C8 (failures are left out of the result lists) does not hold of the deletion path. The
  cached record is pushed on \<open>deleted\<close> before \<open>deleteTodo\<close> runs, so it is reported
  although the archive request failed.
\<close>

theorem failed_archive_reported_deleted:
  "fst (deleteTodo (failing_client [fixme_page]) some_credentials (CachedTodo removed_todo)
         (start ())) = False \<and>
   deleted (fst (syncTodos (failing_client [fixme_page]) some_credentials [fixme_todo]
     (cache_of [removed_todo]) (start ()))) = [removed_todo]"
  by code_simp

theorem failed_archive_reported_deleted_witness:
  "removed_todo \<in> set (deleted (fst (syncTodos (failing_client [fixme_page])
     some_credentials [fixme_todo] (cache_of [removed_todo]) (start ()))))"
  using failed_archive_reported_deleted by simp

text \<open>
  When every write fails, each record is still attempted and none is reported created.
\<close>

lemma failing_writes_all_attempted:
  "ops (snd (syncTodos (failing_client []) some_credentials [fixme_todo, removed_todo] []
     (start ()))) = [CREATE fixme_todo, CREATE removed_todo] \<and>
   created (fst (syncTodos (failing_client []) some_credentials [fixme_todo, removed_todo] []
     (start ()))) = []"
  by code_simp

text \<open>
  An identifier that names a builtin of the prototype ends the pass: the record before
  it has been created in the store, the record after it is not attempted, and the
  result lists are empty.
\<close>

lemma prototype_key_aborts_pass:
  "syncTodos (ok_client []) some_credentials [fixme_todo, keyword_todo, removed_todo] []
     (start ())
   = (empty_result,
      \<lparr>world = (), ops = [CREATE fixme_todo],
       calls = [DatabasesQuery ''db'', DatabasesRetrieve ''db'',
                PagesCreate ''db'' (todo_properties
                  (Some [(''Name'', ''title''), (''TODO_ID'', ''rich_text'')]) fixme_todo)]\<rparr>)"
  by code_simp

section \<open>Properties of the extractor and the stamper\<close>

subsection \<open>Letters, literals and the identifier pattern\<close>

lemma lit_ci_Some: "lit_ci p s = Some r \<Longrightarrow> \<exists>x. s = x @ r \<and> map to_upper x = map to_upper p"
proof (induction p s rule: lit_ci.induct)
  case (1 s)
  then show ?case by simp
next
  case (2 p ps)
  then show ?case by simp
next
  case (3 p ps c cs)
  then have u: "to_upper c = to_upper p" and l: "lit_ci ps cs = Some r"
    by (auto split: if_splits)
  from "3.IH" [OF u l] obtain x where "cs = x @ r" "map to_upper x = map to_upper ps" by blast
  with u have "c # cs = (c # x) @ r \<and> map to_upper (c # x) = map to_upper (p # ps)" by simp
  then show ?case by blast
qed

lemma lit_ci_complete: "map to_upper x = map to_upper p \<Longrightarrow> lit_ci p (x @ r) = Some r"
proof (induction p arbitrary: x)
  case Nil
  then show ?case by simp
next
  case (Cons a p)
  then obtain c x' where "x = c # x'" by (cases x) auto
  with Cons show ?case by simp
qed

lemma to_upper_cases:
  "to_upper c = c \<or> (c \<in> set lower_letters \<and> to_upper c \<in> set upper_letters)"
proof (cases "map_of (zip lower_letters upper_letters) c")
  case None
  then show ?thesis by (simp add: to_upper_def)
next
  case (Some u)
  then have "(c, u) \<in> set (zip lower_letters upper_letters)" by (rule map_of_SomeD)
  then have "c \<in> set lower_letters" "u \<in> set upper_letters"
    by (auto dest: set_zip_leftD set_zip_rightD)
  with Some show ?thesis by (simp add: to_upper_def)
qed

lemma to_upper_fixed: "c \<notin> set lower_letters \<Longrightarrow> to_upper c = c"
  using to_upper_cases by blast

lemma bracket_not_letter:
  "CHR ''['' \<notin> set upper_letters" "CHR ''['' \<notin> set lower_letters"
  by (simp_all add: upper_letters_def lower_letters_def)

lemma colon_not_letter:
  "CHR '':'' \<notin> set upper_letters" "CHR '':'' \<notin> set lower_letters"
  by (simp_all add: upper_letters_def lower_letters_def)

lemma slash_not_letter:
  "CHR ''/'' \<notin> set upper_letters" "CHR ''/'' \<notin> set lower_letters"
  by (simp_all add: upper_letters_def lower_letters_def)

lemma I_D_upper: "CHR ''I'' \<in> set upper_letters" "CHR ''D'' \<in> set upper_letters"
  by (simp_all add: upper_letters_def)

lemma to_upper_bracket: "to_upper c = CHR ''['' \<longleftrightarrow> c = CHR ''[''"
  using to_upper_cases [of c] to_upper_fixed [of "CHR ''[''"] bracket_not_letter by metis

lemma to_upper_colon: "to_upper c = CHR '':'' \<longleftrightarrow> c = CHR '':''"
  using to_upper_cases [of c] to_upper_fixed [of "CHR '':''"] colon_not_letter by metis

lemma to_upper_slash: "to_upper c = CHR ''/'' \<longleftrightarrow> c = CHR ''/''"
  using to_upper_cases [of c] to_upper_fixed [of "CHR ''/''"] slash_not_letter by metis

lemma to_upper_letter: "to_upper c \<in> set upper_letters \<Longrightarrow> is_idchar c"
  using to_upper_cases [of c] by (auto simp add: is_idchar_def)

lemma to_upper_I: "to_upper c = CHR ''I'' \<Longrightarrow> is_idchar c"
  using to_upper_letter I_D_upper(1) by metis

lemma to_upper_D: "to_upper c = CHR ''D'' \<Longrightarrow> is_idchar c"
  using to_upper_letter I_D_upper(2) by metis

lemma closing_not_idchar: "\<not> is_idchar (CHR '']'')"
  by (simp add: is_idchar_def lower_letters_def upper_letters_def is_digit_def)

lemma space_separator: "is_space c \<Longrightarrow> separator c"
  by (auto simp add: is_space_def separator_def is_idchar_def lower_letters_def
      upper_letters_def is_digit_def)

lemma bracket_separator: "separator (CHR ''['')"
  by (simp add: separator_def is_idchar_def lower_letters_def upper_letters_def is_digit_def)

lemma bracket_not_space: "\<not> is_space (CHR ''['')"
  by (simp add: is_space_def)

lemma idRegex_iff:
  "idRegex s = Some (tok, r) \<longleftrightarrow>
     (\<exists>p. s = p @ tok @ CHR '']'' # r \<and> map to_upper p = map to_upper id_open \<and> wf_token tok)"
proof
  assume a: "idRegex s = Some (tok, r)"
  then obtain r0 where l: "lit_ci id_open s = Some r0"
    by (auto simp add: idRegex_def split: option.splits)
  with a have ne: "takeWhile is_idchar r0 \<noteq> []"
    and d: "dropWhile is_idchar r0 = CHR '']'' # r" and t: "tok = takeWhile is_idchar r0"
    by (auto simp add: idRegex_def split: option.splits list.splits if_splits)
  from lit_ci_Some [OF l] obtain p where p: "s = p @ r0" "map to_upper p = map to_upper id_open"
    by auto
  have r0: "r0 = tok @ CHR '']'' # r" using d t takeWhile_dropWhile_id [of is_idchar r0] by simp
  have w: "wf_token tok" using ne t
    by (auto simp add: wf_token_def list_all_iff dest: set_takeWhileD)
  show "\<exists>p. s = p @ tok @ CHR '']'' # r \<and> map to_upper p = map to_upper id_open \<and> wf_token tok"
  proof (intro exI conjI)
    show "s = p @ tok @ CHR '']'' # r" using p(1) r0 by simp
    show "map to_upper p = map to_upper id_open" by (rule p(2))
    show "wf_token tok" by (rule w)
  qed
next
  assume "\<exists>p. s = p @ tok @ CHR '']'' # r \<and> map to_upper p = map to_upper id_open \<and> wf_token tok"
  then obtain p where p: "s = p @ tok @ CHR '']'' # r" "map to_upper p = map to_upper id_open"
    and w: "wf_token tok" by (elim exE conjE)
  have all: "\<forall>c \<in> set tok. is_idchar c" using w by (simp add: wf_token_def list_all_iff)
  have l: "lit_ci id_open s = Some (tok @ CHR '']'' # r)"
    using p lit_ci_complete [of p id_open] by simp
  have t: "takeWhile is_idchar (tok @ CHR '']'' # r) = tok"
    using all closing_not_idchar by (simp add: takeWhile_tail)
  have d: "dropWhile is_idchar (tok @ CHR '']'' # r) = CHR '']'' # r"
    using all closing_not_idchar by (simp add: dropWhile_append3)
  show "idRegex s = Some (tok, r)"
    using l t d w by (simp add: idRegex_def wf_token_def)
qed

lemma split_at_absent:
  "a @ b = x @ c # v \<Longrightarrow> c \<notin> set a \<Longrightarrow> \<exists>x'. x = a @ x' \<and> b = x' @ c # v"
proof (induction a arbitrary: x)
  case Nil
  then show ?case by simp
next
  case (Cons h a)
  then obtain x0 where x: "x = h # x0" by (cases x) auto
  with Cons.prems have "a @ b = x0 @ c # v" "c \<notin> set a" by auto
  from Cons.IH [OF this] x show ?case by auto
qed

lemma id_open_upper:
  "map to_upper p = map to_upper id_open \<Longrightarrow>
     \<exists>p2 p3 p4. p = [CHR ''['', p2, p3, p4] \<and> is_idchar p2 \<and> is_idchar p3 \<and> p4 = CHR '':''"
proof -
  assume a: "map to_upper p = map to_upper id_open"
  have u: "map to_upper id_open = [CHR ''['', CHR ''I'', CHR ''D'', CHR '':'']"
    by (simp add: id_open_def to_upper_def lower_letters_def upper_letters_def)
  from a u obtain p1 p2 p3 p4 where p: "p = [p1, p2, p3, p4]"
    "to_upper p1 = CHR ''[''" "to_upper p2 = CHR ''I''" "to_upper p3 = CHR ''D''"
    "to_upper p4 = CHR '':''"
    by (auto simp add: map_eq_Cons_conv)
  show ?thesis
  proof (intro exI conjI)
    show "p = [CHR ''['', p2, p3, p4]" using p(1,2) to_upper_bracket by simp
    show "is_idchar p2" using p(3) by (rule to_upper_I)
    show "is_idchar p3" using p(4) by (rule to_upper_D)
    show "p4 = CHR '':''" using p(5) to_upper_colon by simp
  qed
qed

lemma annotation_chars:
  assumes "map to_upper p = map to_upper id_open" and "wf_token tok" and "separator c"
  shows "\<exists>a. p @ tok @ [CHR '']''] = CHR ''['' # a \<and> c \<notin> set a"
proof -
  from id_open_upper [OF assms(1)] obtain p2 p3 p4 where
    p: "p = [CHR ''['', p2, p3, p4]" "is_idchar p2" "is_idchar p3" "p4 = CHR '':''"
    by (elim exE conjE)
  have "c \<noteq> p2" "c \<noteq> p3" "c \<noteq> p4" "c \<noteq> CHR '']''"
    using assms(3) p(2,3,4) by (auto simp add: separator_def)
  moreover have "c \<notin> set tok"
    using assms(2,3) by (auto simp add: wf_token_def list_all_iff separator_def)
  ultimately have "c \<notin> set ([p2, p3, p4] @ tok @ [CHR '']''])" by simp
  moreover have "p @ tok @ [CHR '']''] = CHR ''['' # ([p2, p3, p4] @ tok @ [CHR '']''])"
    using p(1) by simp
  ultimately show ?thesis by (intro exI conjI)
qed

lemma idRegex_local:
  assumes "s \<noteq> []" and "separator c"
  shows "idRegex (s @ c # v) = map_option (\<lambda>(g, r). (g, r @ c # v)) (idRegex s)"
proof (cases "idRegex s")
  case (Some gr)
  obtain tok r where gr: "gr = (tok, r)" by (cases gr)
  with Some idRegex_iff [of s tok r] obtain p where
    "s = p @ tok @ CHR '']'' # r" "map to_upper p = map to_upper id_open" "wf_token tok"
    by auto
  then have "idRegex (s @ c # v) = Some (tok, r @ c # v)"
    using idRegex_iff [of "s @ c # v" tok "r @ c # v"] by auto
  with Some gr show ?thesis by simp
next
  case None
  have "idRegex (s @ c # v) = None"
  proof (rule ccontr)
    assume "idRegex (s @ c # v) \<noteq> None"
    then obtain tok r where m: "idRegex (s @ c # v) = Some (tok, r)" by auto
    with idRegex_iff [of "s @ c # v" tok r] obtain p where
      p: "s @ c # v = p @ tok @ CHR '']'' # r" "map to_upper p = map to_upper id_open"
        "wf_token tok"
      by auto
    from annotation_chars [OF p(2,3) assms(2)] obtain a where
      a: "p @ tok @ [CHR '']''] = CHR ''['' # a" "c \<notin> set a" by (elim exE conjE)
    obtain s0 s' where s: "s = s0 # s'" using assms(1) by (cases s) auto
    have "p @ tok @ CHR '']'' # r = (p @ tok @ [CHR '']'']) @ r" by simp
    with p(1) a(1) have "s @ c # v = (CHR ''['' # a) @ r" by simp
    with s have s0: "s0 = CHR ''[''" and e: "a @ r = s' @ c # v" by auto
    from split_at_absent [OF e a(2)] obtain x' where x': "s' = a @ x'" by (elim exE conjE)
    have "s = (CHR ''['' # a) @ x'" using s s0 x' by simp
    also have "\<dots> = (p @ tok @ [CHR '']'']) @ x'" using a(1) by simp
    finally have "s = p @ tok @ CHR '']'' # x'" by simp
    with p(2,3) idRegex_iff [of s tok x'] have "idRegex s = Some (tok, x')" by auto
    with None show False by simp
  qed
  with None show ?thesis by simp
qed

lemma idRegex_Nil: "idRegex [] = None"
  by (simp add: idRegex_def id_open_def)


subsection \<open>The leftmost match\<close>

lemma search_hit: "m s = Some (g, r) \<Longrightarrow> search m s = Some ([], g, r)"
  by (cases s) simp_all

lemma search_Some_decomp:
  "search m s = Some (b, g, r) \<Longrightarrow> \<exists>s'. s = b @ s' \<and> m s' = Some (g, r)"
proof (induction s arbitrary: b)
  case Nil
  then show ?case by (auto split: option.splits)
next
  case (Cons c cs)
  show ?case
  proof (cases "m (c # cs)")
    case (Some gr)
    with Cons.prems show ?thesis by auto
  next
    case None
    with Cons.prems obtain b' where b': "search m cs = Some (b', g, r)" "b = c # b'"
      by (auto split: option.splits)
    from Cons.IH [OF b'(1)] b'(2) show ?thesis by auto
  qed
qed

lemma search_complete: "m s' = Some gr \<Longrightarrow> search m (b @ s') \<noteq> None"
proof (induction b)
  case Nil
  then show ?case by (cases gr) (simp add: search_hit)
next
  case (Cons c b)
  then show ?case by (auto split: option.splits)
qed

lemma search_append:
  assumes "m [] = None"
    and "\<And>s. s \<noteq> [] \<Longrightarrow> m (s @ y) = map_option (\<lambda>(g, r). (g, r @ y)) (m s)"
  shows "search m (x @ y) =
     (case search m x of
        Some (b, g, r) \<Rightarrow> Some (b, g, r @ y)
      | None \<Rightarrow> map_option (\<lambda>(b, g, r). (x @ b, g, r)) (search m y))"
proof (induction x)
  case Nil
  have "search m [] = None" using assms(1) by simp
  then show ?case by (cases "search m y") auto
next
  case (Cons a x)
  have e: "m ((a # x) @ y) = map_option (\<lambda>(g, r). (g, r @ y)) (m (a # x))"
    by (rule assms(2)) simp
  show ?case
  proof (cases "m (a # x)")
    case (Some gr)
    with e show ?thesis by (cases gr) simp
  next
    case None
    with e have n: "m (a # x @ y) = None" by simp
    show ?thesis
    proof (cases "search m x")
      case sn: None
      with None n Cons.IH show ?thesis by (cases "search m y") auto
    next
      case (Some bgr)
      with None n Cons.IH show ?thesis by (cases bgr) auto
    qed
  qed
qed

lemma search_skip:
  "(\<And>b1 b2. x = b1 @ b2 \<Longrightarrow> b2 \<noteq> [] \<Longrightarrow> m (b2 @ y) = None) \<Longrightarrow>
     search m (x @ y) = map_option (\<lambda>(b, g, r). (x @ b, g, r)) (search m y)"
proof (induction x)
  case Nil
  then show ?case by (cases "search m y") auto
next
  case (Cons a x)
  have n: "m ((a # x) @ y) = None" by (rule Cons.prems [of "[]"]) simp_all
  have "\<And>b1 b2. x = b1 @ b2 \<Longrightarrow> b2 \<noteq> [] \<Longrightarrow> m (b2 @ y) = None"
  proof -
    fix b1 b2 assume "x = b1 @ b2" "b2 \<noteq> []"
    then show "m (b2 @ y) = None" using Cons.prems [of "a # b1" b2] by simp
  qed
  from Cons.IH [OF this] n show ?case by (cases "search m y") auto
qed

lemma search_idRegex_append:
  assumes "y = [] \<or> separator (hd y)"
  shows "search idRegex (x @ y) =
     (case search idRegex x of
        Some (b, g, r) \<Rightarrow> Some (b, g, r @ y)
      | None \<Rightarrow> map_option (\<lambda>(b, g, r). (x @ b, g, r)) (search idRegex y))"
proof (cases y)
  case Nil
  have "search idRegex [] = None" by (simp add: idRegex_Nil)
  with Nil show ?thesis by (auto split: option.splits)
next
  case (Cons c v)
  with assms have "separator c" by simp
  then have "\<And>s. s \<noteq> [] \<Longrightarrow>
      idRegex (s @ y) = map_option (\<lambda>(g, r). (g, r @ y)) (idRegex s)"
    using idRegex_local Cons by simp
  with idRegex_Nil show ?thesis by (rule search_append)
qed

subsection \<open>The line without its trailing annotation\<close>

lemma trimEnd_decomp: "\<exists>y. s = trimEnd s @ y \<and> (\<forall>c \<in> set y. is_space c)"
proof (intro exI conjI)
  have "trimEnd s @ rev (takeWhile is_space (rev s))
          = rev (takeWhile is_space (rev s) @ dropWhile is_space (rev s))"
    by (simp only: trimEnd_def rev_append)
  also have "\<dots> = rev (rev s)" by (simp only: takeWhile_dropWhile_id)
  finally show "s = trimEnd s @ rev (takeWhile is_space (rev s))" by simp
  show "\<forall>c \<in> set (rev (takeWhile is_space (rev s))). is_space c"
    by (auto dest: set_takeWhileD)
qed

lemma trimEnd_last: "trimEnd s = [] \<or> \<not> is_space (last (trimEnd s))"
proof (cases "dropWhile is_space (rev s)")
  case Nil
  then show ?thesis by (simp add: trimEnd_def)
next
  case (Cons c cs)
  then have "\<not> is_space c" using hd_dropWhile [of is_space "rev s"] by auto
  with Cons show ?thesis by (simp add: trimEnd_def)
qed

lemma trimEnd_fixed: "s = [] \<or> \<not> is_space (last s) \<Longrightarrow> trimEnd s = s"
proof -
  assume a: "s = [] \<or> \<not> is_space (last s)"
  have "dropWhile is_space (rev s) = rev s"
  proof (cases "rev s")
    case Nil
    then show ?thesis by simp
  next
    case (Cons c cs)
    then have "s = rev cs @ [c]" by (metis rev.simps(2) rev_rev_ident)
    with a have "\<not> is_space c" by simp
    with Cons show ?thesis by simp
  qed
  then show ?thesis by (simp add: trimEnd_def)
qed

lemma idRegex_starts:
  "idRegex s = Some (tok, r) \<Longrightarrow> \<exists>s'. s = CHR ''['' # s'"
proof -
  assume "idRegex s = Some (tok, r)"
  with idRegex_iff [of s tok r] obtain p where
    p: "s = p @ tok @ CHR '']'' # r" "map to_upper p = map to_upper id_open" by auto
  from id_open_upper [OF p(2)] obtain p2 p3 p4 where "p = [CHR ''['', p2, p3, p4]"
    by (elim exE conjE)
  with p(1) show ?thesis by simp
qed

lemma trailingIdRegex_Some:
  assumes "trailingIdRegex s = Some (tok, r)"
  shows "r = [] \<and> s \<noteq> [] \<and> separator (hd s)"
proof -
  from assms have i: "idRegex (dropWhile is_space s) = Some (tok, [])" and r: "r = []"
    by (auto simp add: trailingIdRegex_def split: option.splits if_splits)
  from idRegex_starts [OF i] obtain s' where s': "dropWhile is_space s = CHR ''['' # s'"
    by (elim exE)
  then have ne: "s \<noteq> []" by auto
  have "separator (hd s)"
  proof (cases "is_space (hd s)")
    case True
    then show ?thesis by (rule space_separator)
  next
    case False
    with ne have "dropWhile is_space s = s" by (cases s) auto
    with s' show ?thesis by (simp add: bracket_separator)
  qed
  with r ne show ?thesis by simp
qed

lemma unstamped_decomp: "\<exists>y. l = unstamped l @ y \<and> (y = [] \<or> separator (hd y))"
proof (cases "search trailingIdRegex l")
  case None
  then have u: "unstamped l = trimEnd l" by (simp add: unstamped_def remove_first_def)
  from trimEnd_decomp [of l] obtain y where y: "l = trimEnd l @ y" "\<forall>c \<in> set y. is_space c"
    by (elim exE conjE)
  have "y = [] \<or> separator (hd y)"
  proof (cases y)
    case Nil
    then show ?thesis by simp
  next
    case (Cons c v)
    with y(2) have "is_space c" by simp
    with Cons show ?thesis by (simp add: space_separator)
  qed
  with y(1) u show ?thesis by auto
next
  case (Some bgr)
  obtain b tok r where bgr: "bgr = (b, tok, r)" by (cases bgr)
  from search_Some_decomp [of trailingIdRegex l b tok r] Some bgr obtain s' where
    s': "l = b @ s'" "trailingIdRegex s' = Some (tok, r)" by auto
  from trailingIdRegex_Some [OF s'(2)] have r: "r = []" "s' \<noteq> []" "separator (hd s')"
    by simp_all
  have u: "unstamped l = trimEnd b"
    using Some bgr r(1) by (simp add: unstamped_def remove_first_def)
  from trimEnd_decomp [of b] obtain y0 where y0: "b = trimEnd b @ y0" "\<forall>c \<in> set y0. is_space c"
    by (elim exE conjE)
  have "separator (hd (y0 @ s'))"
  proof (cases y0)
    case Nil
    with r(3) show ?thesis by simp
  next
    case (Cons c v)
    with y0(2) have "is_space c" by simp
    with Cons show ?thesis by (simp add: space_separator)
  qed
  moreover have "l = unstamped l @ (y0 @ s')" using s'(1) y0(1) u by simp
  ultimately show ?thesis by blast
qed

lemma unstamped_last: "unstamped l = [] \<or> \<not> is_space (last (unstamped l))"
  by (simp add: unstamped_def trimEnd_last)


subsection \<open>A stamped line is a fixed point of the stamper\<close>

lemma annotation_match: "wf_token tok \<Longrightarrow> idRegex (id_open @ tok @ CHR '']'' # r) = Some (tok, r)"
  using idRegex_iff [of "id_open @ tok @ CHR '']'' # r" tok r] by auto

lemma idRegex_space: "is_space c \<Longrightarrow> idRegex (c # v) = None"
proof (rule ccontr)
  assume c: "is_space c" and "idRegex (c # v) \<noteq> None"
  then obtain tok r where "idRegex (c # v) = Some (tok, r)" by auto
  from idRegex_starts [OF this] have "c = CHR ''[''" by simp
  with c bracket_not_space show False by simp
qed

lemma space_is_space: "is_space (CHR '' '')"
  by (simp add: is_space_def)

lemma stamped_detected:
  assumes "wf_token tok" and "detected_id l = Some tok \<or> detected_id l = None"
  shows "detected_id (unstamped l @ CHR '' '' # id_open @ tok @ '']'') = Some tok"
proof -
  let ?A = "id_open @ tok @ '']''"
  have sep: "CHR '' '' # ?A = [] \<or> separator (hd (CHR '' '' # ?A))"
    using space_is_space space_separator by simp
  have hit: "search idRegex (CHR '' '' # ?A) = Some ('' '', tok, [])"
    using idRegex_space [OF space_is_space, of ?A] annotation_match [OF assms(1), of "[]"]
    by (simp add: search_hit)
  show ?thesis
  proof (cases "search idRegex (unstamped l)")
    case None
    with search_idRegex_append [OF sep, of "unstamped l"] hit
    show ?thesis by (simp add: detected_id_def)
  next
    case (Some bgr)
    obtain b g r where bgr: "bgr = (b, g, r)" by (cases bgr)
    from unstamped_decomp [of l] obtain y where
      y: "l = unstamped l @ y" "y = [] \<or> separator (hd y)" by (elim exE conjE)
    from search_idRegex_append [OF y(2), of "unstamped l"] Some bgr y(1)
    have "search idRegex l = Some (b, g, r @ y)" by simp
    then have "detected_id l = Some g" by (simp add: detected_id_def)
    with assms(2) have "g = tok" by auto
    with search_idRegex_append [OF sep, of "unstamped l"] Some bgr
    show ?thesis by (simp add: detected_id_def)
  qed
qed

lemma stamped_unstamped:
  assumes "wf_token tok"
  shows "unstamped (unstamped l @ CHR '' '' # id_open @ tok @ '']'') = unstamped l"
proof -
  let ?A = "id_open @ tok @ '']''"
  let ?u = "unstamped l"
  have bs: "dropWhile is_space (CHR '' '' # ?A) = ?A"
    using space_is_space bracket_not_space by (simp add: id_open_def)
  have hit: "trailingIdRegex (CHR '' '' # ?A) = Some (tok, [])"
    using annotation_match [OF assms, of "[]"] bs by (simp add: trailingIdRegex_def)
  have miss: "trailingIdRegex (b2 @ CHR '' '' # ?A) = None" if "?u = b1 @ b2" "b2 \<noteq> []" for b1 b2
  proof -
    from that unstamped_last [of l] have nl: "\<not> is_space (last b2)" by auto
    with that(2) have d: "dropWhile is_space (b2 @ CHR '' '' # ?A)
        = dropWhile is_space b2 @ CHR '' '' # ?A"
      by (metis dropWhile_append1 last_in_set)
    have ne: "dropWhile is_space b2 \<noteq> []"
      using nl that(2) by (metis dropWhile_eq_Nil_conv last_in_set)
    have "idRegex (dropWhile is_space b2 @ CHR '' '' # ?A)
        = map_option (\<lambda>(g, r). (g, r @ CHR '' '' # ?A)) (idRegex (dropWhile is_space b2))"
      using ne space_is_space space_separator by (intro idRegex_local) auto
    with d show ?thesis
      by (cases "idRegex (dropWhile is_space b2)") (auto simp add: trailingIdRegex_def)
  qed
  have "search trailingIdRegex (?u @ CHR '' '' # ?A)
      = map_option (\<lambda>(b, g, r). (?u @ b, g, r)) (search trailingIdRegex (CHR '' '' # ?A))"
    using miss by (intro search_skip) auto
  with hit have "search trailingIdRegex (?u @ CHR '' '' # ?A) = Some (?u, tok, [])"
    by (simp add: search_hit)
  then have "remove_first trailingIdRegex (?u @ CHR '' '' # ?A) = ?u"
    by (simp add: remove_first_def)
  then show ?thesis
    using trimEnd_fixed [OF unstamped_last [of l]] by (simp add: unstamped_def)
qed

lemma stamp_line_fixed:
  assumes "wf_token fresh"
  shows "stamp_line fresh' (stamp_line fresh l) = stamp_line fresh l"
proof -
  define tok where "tok = (case detected_id l of Some t \<Rightarrow> t | None \<Rightarrow> fresh)"
  have w: "wf_token tok"
  proof (cases "search idRegex l")
    case None
    then show ?thesis using assms by (simp add: tok_def detected_id_def)
  next
    case (Some bgr)
    obtain b g r where bgr: "bgr = (b, g, r)" by (cases bgr)
    from search_Some_decomp [of idRegex l b g r] Some bgr obtain s' where
      "idRegex s' = Some (g, r)" by auto
    with idRegex_iff [of s' g r] have "wf_token g" by auto
    with Some bgr show ?thesis by (simp add: tok_def detected_id_def)
  qed
  have c: "detected_id l = Some tok \<or> detected_id l = None"
    by (cases "detected_id l") (simp_all add: tok_def)
  have l1: "stamp_line fresh l = unstamped l @ CHR '' '' # id_open @ tok @ '']''"
    by (simp add: stamp_line_def newLineText_def tok_def id_text_def)
  have "stamp_line fresh' (unstamped l @ CHR '' '' # id_open @ tok @ '']'')
      = unstamped l @ CHR '' '' # id_open @ tok @ '']''"
    using stamped_detected [OF w c] stamped_unstamped [OF w, of l]
    by (simp add: stamp_line_def newLineText_def id_text_def)
  with l1 show ?thesis by simp
qed

lemma hex_digit_idchar: "is_idchar (hex_digit v)"
proof -
  have "unat v < 2 ^ LENGTH(4)" by (rule unsigned_less)
  then have "unat v < length ''0123456789abcdef''" by simp
  then have "hex_digit v \<in> set ''0123456789abcdef''"
    unfolding hex_digit_def by (rule nth_mem)
  moreover have "list_all is_idchar ''0123456789abcdef''"
    by (simp add: is_idchar_def lower_letters_def upper_letters_def is_digit_def)
  ultimately show ?thesis by (simp only: list_all_iff)
qed

lemma fill_template_idchars:
  "list_all is_idchar template \<Longrightarrow> list_all is_idchar (fst (fill_template rnd k template))"
proof (induction template arbitrary: k)
  case Nil
  then show ?case by simp
next
  case (Cons c cs)
  then have c: "is_idchar c" and ih: "\<And>k. list_all is_idchar (fst (fill_template rnd k cs))"
    by simp_all
  show ?case
    using c ih [of k] ih [of "Suc k"] hex_digit_idchar
    by (simp add: split_beta)
qed

lemma fill_template_length: "length (fst (fill_template rnd k template)) = length template"
  by (induction template arbitrary: k) (simp_all add: split_beta)

lemma generateRandomId_wf: "wf_token (fst (generateRandomId rnd k))"
proof -
  have "list_all is_idchar ''xxxxxxxx-xxxx-4xxx-yxxx-xxxxxxxxxxxx''"
    by (simp add: is_idchar_def lower_letters_def upper_letters_def is_digit_def)
  then have "list_all is_idchar (fst (generateRandomId rnd k))"
    unfolding generateRandomId_def by (rule fill_template_idchars)
  moreover have "length (fst (generateRandomId rnd k)) = 36"
    by (simp add: generateRandomId_def fill_template_length)
  ultimately show ?thesis by (auto simp add: wf_token_def)
qed

text \<open>
  On one line: stamp it with the identifier the extractor reads on it or else with a
  generated one, and apply the stamper again to the result. The extractor reads the
  same identifier back and the line computed is the stamped line itself.
\<close>

lemma stamp_line_idempotent:
  "stamp_line fresh' (stamp_line (fst (generateRandomId rnd k)) lineText)
     = stamp_line (fst (generateRandomId rnd k)) lineText"
  using generateRandomId_wf by (rule stamp_line_fixed)

subsection \<open>A stamped line is still a marker line\<close>

lemma slash_facts: "\<not> is_space (CHR ''/'')" "\<not> is_idchar (CHR ''/'')"
  by (simp_all add: is_space_def is_idchar_def lower_letters_def upper_letters_def is_digit_def)

lemma idRegex_no_slash:
  assumes "idRegex s = Some (tok, [])"
  shows "CHR ''/'' \<notin> set s"
proof -
  from assms idRegex_iff [of s tok "[]"] obtain p where
    p: "s = p @ tok @ [CHR '']'']" "map to_upper p = map to_upper id_open" "wf_token tok"
    by auto
  from id_open_upper [OF p(2)] obtain p2 p3 p4 where
    q: "p = [CHR ''['', p2, p3, p4]" "is_idchar p2" "is_idchar p3" "p4 = CHR '':''"
    by (elim exE conjE)
  have "CHR ''/'' \<notin> set tok"
    using p(3) slash_facts(2) by (auto simp add: wf_token_def list_all_iff)
  moreover have "CHR ''/'' \<noteq> p2" "CHR ''/'' \<noteq> p3"
    using q(2,3) slash_facts(2) by auto
  ultimately show ?thesis using p(1) q(1,4) by simp
qed

lemma unstamped_rest:
  "\<exists>sp rest. l = unstamped l @ sp @ rest \<and> (\<forall>c \<in> set sp. is_space c) \<and>
     (rest = [] \<or> hd rest = CHR ''['') \<and> CHR ''/'' \<notin> set rest"
proof (cases "search trailingIdRegex l")
  case None
  then have u: "unstamped l = trimEnd l" by (simp add: unstamped_def remove_first_def)
  from trimEnd_decomp [of l] obtain y where y: "l = trimEnd l @ y" "\<forall>c \<in> set y. is_space c"
    by (elim exE conjE)
  show ?thesis
  proof (intro exI conjI)
    show "l = unstamped l @ y @ []" using y(1) u by simp
    show "\<forall>c \<in> set y. is_space c" by (rule y(2))
    show "[] = [] \<or> hd [] = CHR ''[''" by simp
    show "CHR ''/'' \<notin> set []" by simp
  qed
next
  case (Some bgr)
  obtain b tok r where bgr: "bgr = (b, tok, r)" by (cases bgr)
  from search_Some_decomp [of trailingIdRegex l b tok r] Some bgr obtain s' where
    s': "l = b @ s'" "trailingIdRegex s' = Some (tok, r)" by auto
  from s'(2) have i: "idRegex (dropWhile is_space s') = Some (tok, [])" and r: "r = []"
    by (auto simp add: trailingIdRegex_def split: option.splits if_splits)
  have u: "unstamped l = trimEnd b"
    using Some bgr r by (simp add: unstamped_def remove_first_def)
  from trimEnd_decomp [of b] obtain y0 where y0: "b = trimEnd b @ y0" "\<forall>c \<in> set y0. is_space c"
    by (elim exE conjE)
  from idRegex_starts [OF i] obtain x where x: "dropWhile is_space s' = CHR ''['' # x"
    by (elim exE)
  show ?thesis
  proof (intro exI conjI)
    have "s' = takeWhile is_space s' @ dropWhile is_space s'" by simp
    then show "l = unstamped l @ (y0 @ takeWhile is_space s') @ dropWhile is_space s'"
      using s'(1) y0(1) u by (metis append.assoc)
    show "\<forall>c \<in> set (y0 @ takeWhile is_space s'). is_space c"
      using y0(2) by (auto dest: set_takeWhileD)
    show "dropWhile is_space s' = [] \<or> hd (dropWhile is_space s') = CHR ''[''"
      using x by simp
    show "CHR ''/'' \<notin> set (dropWhile is_space s')" using i by (rule idRegex_no_slash)
  qed
qed

lemma prefix_before_absent:
  "a @ c # r = u @ y \<Longrightarrow> c \<notin> set y \<Longrightarrow> \<exists>u'. u = a @ c # u' \<and> r = u' @ y"
proof (induction a arbitrary: u)
  case Nil
  show ?case
  proof (cases u)
    case Nil
    with Nil.prems show ?thesis by auto
  next
    case (Cons h u0)
    with Nil.prems show ?thesis by auto
  qed
next
  case (Cons h a)
  show ?case
  proof (cases u)
    case Nil
    with Cons.prems have "y = h # a @ c # r" by simp
    with Cons.prems(2) show ?thesis by simp
  next
    case (Cons h' u0)
    with Cons.prems have "h = h'" "a @ c # r = u0 @ y" by simp_all
    from Cons.IH [OF this(2) Cons.prems(2)] this(1) Cons show ?thesis by auto
  qed
qed

lemma lit_ci_slashes: "lit_ci slashes s = Some r \<longleftrightarrow> s = CHR ''/'' # CHR ''/'' # r"
proof
  assume "lit_ci slashes s = Some r"
  from lit_ci_Some [OF this] obtain x where x: "s = x @ r" "map to_upper x = map to_upper slashes"
    by (elim exE conjE)
  have "map to_upper slashes = [CHR ''/'', CHR ''/'']"
    using to_upper_slash by (simp add: slashes_def)
  with x(2) obtain c1 c2 where "x = [c1, c2]" "to_upper c1 = CHR ''/''" "to_upper c2 = CHR ''/''"
    by (auto simp add: map_eq_Cons_conv)
  with x(1) to_upper_slash show "s = CHR ''/'' # CHR ''/'' # r" by simp
next
  assume "s = CHR ''/'' # CHR ''/'' # r"
  then show "lit_ci slashes s = Some r" by (simp add: slashes_def)
qed

lemma todoRegex_iff:
  "todoRegex s \<noteq> None \<longleftrightarrow>
     (\<exists>x. s = CHR ''/'' # CHR ''/'' # x \<and> first_tag tags (dropWhile is_space x) \<noteq> None)"
proof
  assume a: "todoRegex s \<noteq> None"
  then obtain r where r: "lit_ci slashes s = Some r"
    by (auto simp add: todoRegex_def split: option.splits)
  with a have "first_tag tags (dropWhile is_space r) \<noteq> None"
    by (auto simp add: todoRegex_def split: option.splits)
  with r lit_ci_slashes [of s r]
  show "\<exists>x. s = CHR ''/'' # CHR ''/'' # x \<and> first_tag tags (dropWhile is_space x) \<noteq> None"
    by auto
next
  assume "\<exists>x. s = CHR ''/'' # CHR ''/'' # x \<and> first_tag tags (dropWhile is_space x) \<noteq> None"
  then obtain x where x: "s = CHR ''/'' # CHR ''/'' # x"
    "first_tag tags (dropWhile is_space x) \<noteq> None" by (elim exE conjE)
  from x(1) lit_ci_slashes [of s x] have "lit_ci slashes s = Some x" by simp
  with x(2) show "todoRegex s \<noteq> None"
    by (auto simp add: todoRegex_def split: option.splits)
qed

lemma lit_ci_append: "lit_ci p s = Some r \<Longrightarrow> lit_ci p (s @ z) = Some (r @ z)"
proof -
  assume "lit_ci p s = Some r"
  from lit_ci_Some [OF this] obtain x where "s = x @ r" "map to_upper x = map to_upper p"
    by (elim exE conjE)
  then show ?thesis using lit_ci_complete [of x p "r @ z"] by simp
qed

lemma lit_ci_shrink:
  assumes "lit_ci p (x @ y) = Some r"
    and "y = [] \<or> (\<forall>c \<in> set p. to_upper (hd y) \<noteq> to_upper c)"
  shows "lit_ci p x \<noteq> None"
  using assms
proof (induction p arbitrary: x)
  case Nil
  then show ?case by simp
next
  case (Cons a p)
  show ?case
  proof (cases x)
    case Nil
    show ?thesis
    proof (cases y)
      case Nil
      with \<open>x = []\<close> Cons.prems(1) show ?thesis by simp
    next
      case (Cons c v)
      with \<open>x = []\<close> Cons.prems show ?thesis by (auto split: if_splits)
    qed
  next
    case (Cons c cs)
    with Cons.prems(1) have "to_upper c = to_upper a" "lit_ci p (cs @ y) = Some r"
      by (auto split: if_splits)
    moreover from Cons.prems(2) have "y = [] \<or> (\<forall>c \<in> set p. to_upper (hd y) \<noteq> to_upper c)"
      by auto
    ultimately show ?thesis using Cons.IH [of cs] Cons by simp
  qed
qed

lemma first_tag_append: "first_tag ts s \<noteq> None \<Longrightarrow> first_tag ts (s @ z) \<noteq> None"
proof (induction ts)
  case Nil
  then show ?case by simp
next
  case (Cons t ts)
  show ?case
  proof (cases "lit_ci t s")
    case None
    with Cons show ?thesis by (auto split: option.splits)
  next
    case (Some r)
    from lit_ci_append [OF this, of z] show ?thesis by simp
  qed
qed

lemma first_tag_shrink:
  assumes "first_tag ts (x @ y) \<noteq> None"
    and "y = [] \<or> (\<forall>t \<in> set ts. \<forall>c \<in> set t. to_upper (hd y) \<noteq> to_upper c)"
  shows "first_tag ts x \<noteq> None"
  using assms
proof (induction ts)
  case Nil
  then show ?case by simp
next
  case (Cons t ts)
  show ?case
  proof (cases "lit_ci t (x @ y)")
    case None
    with Cons.prems have "first_tag ts (x @ y) \<noteq> None" by simp
    moreover from Cons.prems(2)
    have "y = [] \<or> (\<forall>t \<in> set ts. \<forall>c \<in> set t. to_upper (hd y) \<noteq> to_upper c)" by auto
    ultimately have "first_tag ts x \<noteq> None" by (rule Cons.IH)
    then show ?thesis by (auto split: option.splits)
  next
    case (Some r)
    moreover from Cons.prems(2) have "y = [] \<or> (\<forall>c \<in> set t. to_upper (hd y) \<noteq> to_upper c)"
      by auto
    ultimately have "lit_ci t x \<noteq> None" by (rule lit_ci_shrink)
    then show ?thesis by (auto split: option.splits)
  qed
qed

lemma tag_letters: "\<forall>t \<in> set tags. t \<noteq> [] \<and> (\<forall>c \<in> set t. c \<in> set upper_letters)"
  by (simp add: tags_def upper_letters_def)

lemma upper_not_lower: "c \<in> set upper_letters \<Longrightarrow> c \<notin> set lower_letters"
  by (auto simp add: upper_letters_def lower_letters_def)

lemma separator_no_tag_char:
  assumes "separator c"
  shows "\<forall>t \<in> set tags. \<forall>c' \<in> set t. to_upper c \<noteq> to_upper c'"
proof (intro ballI)
  fix t c' assume "t \<in> set tags" "c' \<in> set t"
  with tag_letters have u: "c' \<in> set upper_letters" by blast
  then have "to_upper c' = c'" using upper_not_lower to_upper_fixed by blast
  moreover have "to_upper c \<notin> set upper_letters"
    using assms to_upper_letter [of c] by (auto simp add: separator_def)
  ultimately show "to_upper c \<noteq> to_upper c'" using u by auto
qed

lemma first_tag_separator:
  assumes "separator c"
  shows "first_tag tags (c # v) = None"
proof (rule ccontr)
  assume "first_tag tags (c # v) \<noteq> None"
  then have "first_tag tags ([] @ c # v) \<noteq> None" by simp
  moreover have "c # v = [] \<or> (\<forall>t \<in> set tags. \<forall>c' \<in> set t. to_upper (hd (c # v)) \<noteq> to_upper c')"
    using separator_no_tag_char [OF assms] by simp
  ultimately have "first_tag tags [] \<noteq> None" by (rule first_tag_shrink)
  moreover have "first_tag tags [] = None" by (simp add: tags_def)
  ultimately show False by simp
qed

lemma first_tag_Nil: "first_tag tags [] = None"
  by (simp add: tags_def)

lemma matches_todo_unstamped:
  assumes "matches_todo l"
  shows "matches_todo (unstamped l @ z)"
proof -
  from assms obtain b tag r where "search todoRegex l = Some (b, tag, r)"
    by (auto simp add: matches_todo_def)
  from search_Some_decomp [OF this] obtain s' where s': "l = b @ s'" "todoRegex s' = Some (tag, r)"
    by (elim exE conjE)
  from s'(2) todoRegex_iff [of s'] obtain x where
    x: "s' = CHR ''/'' # CHR ''/'' # x" "first_tag tags (dropWhile is_space x) \<noteq> None"
    by auto
  from unstamped_rest [of l] obtain sp rest where
    d: "l = unstamped l @ sp @ rest" "\<forall>c \<in> set sp. is_space c"
      "rest = [] \<or> hd rest = CHR ''[''" "CHR ''/'' \<notin> set rest"
    by (elim exE conjE)
  have ns: "CHR ''/'' \<notin> set (sp @ rest)" using d(2,4) slash_facts(1) by auto
  have "b @ CHR ''/'' # (CHR ''/'' # x) = unstamped l @ (sp @ rest)" using s'(1) x(1) d(1) by simp
  from prefix_before_absent [OF this ns] obtain u' where
    u': "unstamped l = b @ CHR ''/'' # u'" "CHR ''/'' # x = u' @ (sp @ rest)" by (elim exE conjE)
  from u'(2) have "[] @ CHR ''/'' # x = u' @ (sp @ rest)" by simp
  from prefix_before_absent [OF this ns] obtain u1 where
    u1: "u' = CHR ''/'' # u1" "x = u1 @ (sp @ rest)" by auto
  have rs: "rest = [] \<or> separator (hd rest)" using d(3) bracket_separator by auto
  have dr: "dropWhile is_space rest = rest" using d(3) bracket_not_space by (cases rest) auto
  have ft: "first_tag tags (dropWhile is_space u1) \<noteq> None \<and> dropWhile is_space u1 \<noteq> []"
  proof (cases "\<forall>c \<in> set u1. is_space c")
    case True
    with d(2) have "dropWhile is_space (u1 @ sp @ rest) = dropWhile is_space rest"
      by (simp add: dropWhile_append)
    with dr x(2) u1(2) have f: "first_tag tags rest \<noteq> None" by simp
    have "first_tag tags rest = None"
    proof (cases rest)
      case Nil
      then show ?thesis by (simp add: first_tag_Nil)
    next
      case (Cons c v)
      with rs have "separator c" by simp
      with Cons show ?thesis by (simp add: first_tag_separator)
    qed
    with f show ?thesis by simp
  next
    case False
    then obtain c where c: "c \<in> set u1" "\<not> is_space c" by auto
    then have e: "dropWhile is_space (u1 @ (sp @ rest)) = dropWhile is_space u1 @ (sp @ rest)"
      by (rule dropWhile_append1)
    have ne: "dropWhile is_space u1 \<noteq> []" using c by (auto simp add: dropWhile_eq_Nil_conv)
    have sep: "sp @ rest = [] \<or>
        (\<forall>t \<in> set tags. \<forall>c' \<in> set t. to_upper (hd (sp @ rest)) \<noteq> to_upper c')"
    proof (cases sp)
      case Nil
      show ?thesis
      proof (cases rest)
        case Nil
        with \<open>sp = []\<close> show ?thesis by simp
      next
        case (Cons c v)
        with rs have "separator c" by simp
        from separator_no_tag_char [OF this] Cons \<open>sp = []\<close> show ?thesis by simp
      qed
    next
      case (Cons c v)
      with d(2) have "separator c" by (simp add: space_separator)
      from separator_no_tag_char [OF this] Cons show ?thesis by simp
    qed
    from x(2) u1(2) e have "first_tag tags (dropWhile is_space u1 @ (sp @ rest)) \<noteq> None" by simp
    from first_tag_shrink [OF this sep] ne show ?thesis by simp
  qed
  then obtain c where c: "c \<in> set u1" "\<not> is_space c"
    by (auto simp add: dropWhile_eq_Nil_conv)
  then have "dropWhile is_space (u1 @ z) = dropWhile is_space u1 @ z" by (rule dropWhile_append1)
  with ft first_tag_append [of tags "dropWhile is_space u1" z]
  have "first_tag tags (dropWhile is_space (u1 @ z)) \<noteq> None" by simp
  with todoRegex_iff [of "CHR ''/'' # CHR ''/'' # u1 @ z"]
  have "todoRegex (CHR ''/'' # CHR ''/'' # u1 @ z) \<noteq> None" by simp
  then obtain gr where "todoRegex (CHR ''/'' # CHR ''/'' # u1 @ z) = Some gr" by auto
  from search_complete [of todoRegex "CHR ''/'' # CHR ''/'' # u1 @ z" gr b, OF this]
  have "search todoRegex (b @ CHR ''/'' # CHR ''/'' # u1 @ z) \<noteq> None" .
  moreover have "unstamped l @ z = b @ CHR ''/'' # CHR ''/'' # u1 @ z" using u'(1) u1(1) by simp
  ultimately show ?thesis by (simp add: matches_todo_def)
qed

lemma matches_todo_stamp: "matches_todo l \<Longrightarrow> matches_todo (newLineText l todoId)"
  unfolding newLineText_def by (rule matches_todo_unstamped)

subsection \<open>What the extractor detects\<close>

lemma detected_id_iff:
  "detected_id lineText \<noteq> None \<longleftrightarrow>
     (\<exists>b p tok r. lineText = b @ p @ tok @ '']'' @ r \<and>
        map to_upper p = map to_upper id_open \<and> wf_token tok)"
proof
  assume "detected_id lineText \<noteq> None"
  then obtain b tok r where "search idRegex lineText = Some (b, tok, r)"
    by (auto simp add: detected_id_def split: option.splits)
  from search_Some_decomp [OF this] obtain s' where
    s': "lineText = b @ s'" "idRegex s' = Some (tok, r)" by (elim exE conjE)
  from s'(2) idRegex_iff [of s' tok r] obtain p where
    "s' = p @ tok @ CHR '']'' # r" "map to_upper p = map to_upper id_open" "wf_token tok"
    by auto
  with s'(1) show "\<exists>b p tok r. lineText = b @ p @ tok @ '']'' @ r \<and>
        map to_upper p = map to_upper id_open \<and> wf_token tok"
    by auto
next
  assume "\<exists>b p tok r. lineText = b @ p @ tok @ '']'' @ r \<and>
        map to_upper p = map to_upper id_open \<and> wf_token tok"
  then obtain b p tok r where l: "lineText = b @ p @ tok @ '']'' @ r"
    and p: "map to_upper p = map to_upper id_open" "wf_token tok"
    by (elim exE conjE)
  from p idRegex_iff [of "p @ tok @ CHR '']'' # r" tok r]
  have "idRegex (p @ tok @ CHR '']'' # r) = Some (tok, r)" by auto
  from search_complete [of idRegex "p @ tok @ CHR '']'' # r" "(tok, r)" b, OF this] l
  show "detected_id lineText \<noteq> None"
    by (auto simp add: detected_id_def split: option.splits)
qed

lemma detected_id_wf: "detected_id lineText = Some tok \<Longrightarrow> wf_token tok"
proof -
  assume "detected_id lineText = Some tok"
  then obtain b r where "search idRegex lineText = Some (b, tok, r)"
    by (auto simp add: detected_id_def split: option.splits)
  from search_Some_decomp [OF this] obtain s' where "idRegex s' = Some (tok, r)"
    by (elim exE conjE)
  with idRegex_iff [of s' tok r] show ?thesis by auto
qed

text \<open>
  C9 as stated (only a trailing annotation of lower-case hexadecimal digits and hyphens
  is detected) fails: on this line the annotation is followed by text and its token has
  upper-case letters that are no hexadecimal digits, and it is the identifier of the
  record.
\<close>

theorem untrailed_identifier_detected:
  "map todo_id (fst (parseTodos (one_line ''// TODO: [id:XYZ] fix'') zero_source 0))
     = [Some ''XYZ''] \<and>
   last ''// TODO: [id:XYZ] fix'' \<noteq> CHR '']'' \<and>
   \<not> list_all is_lower_hex ''XYZ''"
  by code_simp

text \<open>
  C9, amended. The extractor detects an identifier exactly when the line contains,
  anywhere, an annotation made of \<open>[id:\<close> in either case, a non-empty token of ASCII
  letters, digits and hyphens, and a closing bracket; a detected identifier is always
  such a token.
\<close>

theorem identifier_detection:
  "(detected_id lineText \<noteq> None \<longleftrightarrow>
     (\<exists>b p tok r. lineText = b @ p @ tok @ '']'' @ r \<and>
        map to_upper p = map to_upper id_open \<and> wf_token tok)) \<and>
   (\<forall>tok. detected_id lineText = Some tok \<longrightarrow> wf_token tok)"
  using detected_id_iff [of lineText] detected_id_wf [of lineText] by blast

theorem identifier_detection_witness:
  "detected_id ''// FIXME: handle edge case [id:abc-123]'' = Some ''abc-123'' \<and>
   wf_token ''abc-123''"
proof -
  have d: "detected_id ''// FIXME: handle edge case [id:abc-123]'' = Some ''abc-123''"
    by code_simp
  with identifier_detection [of "''// FIXME: handle edge case [id:abc-123]''"]
  show ?thesis by simp
qed

subsection \<open>The stamper on a document\<close>

lemma split_lines_no_eol: "no_eol s \<Longrightarrow> split_lines s = [s]"
  by (induction s) (auto simp add: no_eol_def is_eol_def)

lemma replace_line_no_eol: "no_eol t \<Longrightarrow> replace_line i t ls = ls[i := t]"
  by (simp add: replace_line_def split_lines_no_eol upd_conv_take_nth_drop list_update_beyond)

lemma drop_Cons_nth:
  assumes "l # rest = drop i full"
  shows "i < length full \<and> full ! i = l \<and> rest = drop (Suc i) full"
proof -
  have lt: "i < length full"
  proof (rule ccontr)
    assume "\<not> i < length full"
    then have "drop i full = []" by simp
    with assms show False by simp
  qed
  from Cons_nth_drop_Suc [OF lt] assms have "full ! i # drop (Suc i) full = l # rest"
    by simp
  then show ?thesis using lt by simp
qed

lemma selected_bounds:
  "j \<in> set (selected ls i n) \<Longrightarrow> i \<le> j \<and> j < i + length ls \<and> matches_todo (ls ! (j - i))"
proof (induction ls arbitrary: i n)
  case Nil
  then show ?case by simp
next
  case (Cons l ls)
  from Cons.prems consider
    (here) "j = i" "matches_todo l" |
    (later) m where "j \<in> set (selected ls (i + 1) m)"
    by (auto split: if_splits)
  then show ?case
  proof cases
    case here
    then show ?thesis by simp
  next
    case later
    from Cons.IH [OF this]
    have "i + 1 \<le> j \<and> j < i + 1 + length ls \<and> matches_todo (ls ! (j - (i + 1)))" .
    then show ?thesis by (auto simp add: nth_Cons')
  qed
qed

lemma selected_distinct: "distinct (selected ls i n)"
proof (induction ls arbitrary: i n)
  case Nil
  then show ?case by simp
next
  case (Cons l ls)
  have "i \<notin> set (selected ls (i + 1) m)" for m
    using selected_bounds [of i ls "i + 1" m] by auto
  with Cons show ?case by simp
qed

lemma selected_cong:
  "map matches_todo ls' = map matches_todo ls \<Longrightarrow> selected ls' i n = selected ls i n"
proof (induction ls arbitrary: ls' i n)
  case Nil
  then show ?case by simp
next
  case (Cons l ls)
  then obtain l' rest' where "ls' = l' # rest'" "matches_todo l' = matches_todo l"
    "map matches_todo rest' = map matches_todo ls"
    by (cases ls') auto
  with Cons.IH [of rest'] show ?case by simp
qed

lemma reads_default:
  "reads full (\<lambda>j. case detected_id (full ! j) of Some x \<Rightarrow> x | None \<Rightarrow> fst (generateRandomId rnd 0))"
  by (auto simp add: reads_def generateRandomId_wf detected_id_wf split: option.splits)

lemma parse_lines_shape:
  assumes "ls = drop i full"
  shows "\<exists>idof. reads full idof \<and>
     fst (parse_lines filePath rnd ls i k todos)
       = todos @ map (record_at filePath full idof) (selected ls i (length todos))"
  using assms
proof (induction ls arbitrary: i k todos)
  case Nil
  then show ?case using reads_default by auto
next
  case (Cons l rest)
  from drop_Cons_nth [OF Cons.prems] have i: "i < length full" "full ! i = l"
    and rest: "rest = drop (i + 1) full" by simp_all
  show ?case
  proof (cases "length todos < maxTodos")
    case False
    then show ?thesis using reads_default by auto
  next
    case lt: True
    show ?thesis
    proof (cases "matches_todo l")
      case False
      from Cons.IH [OF rest, of k todos] obtain idof where
        "reads full idof"
        "fst (parse_lines filePath rnd rest (i + 1) k todos)
           = todos @ map (record_at filePath full idof) (selected rest (i + 1) (length todos))"
        by (elim exE conjE)
      with lt False show ?thesis by auto
    next
      case m: True
      show ?thesis
      proof (cases "detected_id l")
        case (Some tok)
        from Cons.IH [OF rest, of k "todos @ [make_todo filePath i l tok]"] obtain idof where
          r: "reads full idof" and
          f: "fst (parse_lines filePath rnd rest (i + 1) k (todos @ [make_todo filePath i l tok]))
             = (todos @ [make_todo filePath i l tok])
               @ map (record_at filePath full idof)
                   (selected rest (i + 1) (length (todos @ [make_todo filePath i l tok])))"
          by (elim exE conjE)
        from r Some i(2) have "idof i = tok" by (simp add: reads_def)
        then have "record_at filePath full idof i = make_todo filePath i l tok"
          using i(2) by (simp add: record_at_def)
        with f lt m Some have
          "fst (parse_lines filePath rnd (l # rest) i k todos)
             = todos @ map (record_at filePath full idof) (selected (l # rest) i (length todos))"
          by simp
        with r show ?thesis by blast
      next
        case None
        obtain fresh k' where g: "generateRandomId rnd k = (fresh, k')" by force
        have w: "wf_token fresh" using generateRandomId_wf [of rnd k] g by simp
        from Cons.IH [OF rest, of k' "todos @ [make_todo filePath i l fresh]"] obtain idof where
          r: "reads full idof" and
          f: "fst (parse_lines filePath rnd rest (i + 1) k' (todos @ [make_todo filePath i l fresh]))
             = (todos @ [make_todo filePath i l fresh])
               @ map (record_at filePath full idof)
                   (selected rest (i + 1) (length (todos @ [make_todo filePath i l fresh])))"
          by (elim exE conjE)
        define idof' where "idof' = idof(i := fresh)"
        have r': "reads full idof'"
          using r w None i(2) by (auto simp add: reads_def idof'_def)
        have here: "record_at filePath full idof' i = make_todo filePath i l fresh"
          using i(2) by (simp add: record_at_def idof'_def)
        have "record_at filePath full idof' j = record_at filePath full idof j"
          if "j \<in> set (selected rest (i + 1) n)" for j n
          using selected_bounds [OF that] by (simp add: record_at_def idof'_def)
        then have later: "map (record_at filePath full idof') (selected rest (i + 1) n)
            = map (record_at filePath full idof) (selected rest (i + 1) n)" for n
          by (intro map_cong) auto
        from f lt m None g here later have
          "fst (parse_lines filePath rnd (l # rest) i k todos)
             = todos @ map (record_at filePath full idof') (selected (l # rest) i (length todos))"
          by simp
        with r' show ?thesis by blast
      qed
    qed
  qed
qed

lemma parseTodos_shape:
  "\<exists>idof. reads (doc_lines doc) idof \<and>
     fst (parseTodos doc rnd k)
       = map (record_at (doc_fsPath doc) (doc_lines doc) idof) (selected (doc_lines doc) 0 0)"
  using parse_lines_shape [of "doc_lines doc" 0 "doc_lines doc" "doc_fsPath doc" rnd k "[]"]
  by (simp add: parseTodos_def)


lemma record_at_fields:
  "todo_line (record_at filePath full idof j) = j"
  "todo_id (record_at filePath full idof j) = Some (idof j)"
  by (simp_all add: record_at_def make_todo_def)

lemma inject_edits_records:
  assumes "\<forall>j \<in> set sel. j < length ls"
  shows "inject_edits ls (map (record_at filePath full idof) sel)
     = Inr (map (\<lambda>j. (j, newLineText (ls ! j) (Some (idof j))))
            (filter (\<lambda>j. ls ! j \<noteq> newLineText (ls ! j) (Some (idof j))) sel))"
  using assms by (induction sel) (simp_all add: record_at_fields)

lemma apply_line_edits_nth:
  assumes "distinct (map fst es)" and "\<forall>(i, t) \<in> set es. i < length ls \<and> no_eol t"
  shows "length (apply_line_edits es ls) = length ls \<and>
     (\<forall>j < length ls. apply_line_edits es ls ! j
        = (case map_of es j of Some t \<Rightarrow> t | None \<Rightarrow> ls ! j))"
  using assms
proof (induction es arbitrary: ls)
  case Nil
  then show ?case by (simp add: apply_line_edits_def)
next
  case (Cons e es)
  obtain i t where e: "e = (i, t)" by (cases e)
  with Cons.prems have it: "i < length ls" "no_eol t" and d: "distinct (map fst es)"
    and ni: "i \<notin> fst ` set es"
    and rest: "\<forall>(i', t') \<in> set es. i' < length (ls[i := t]) \<and> no_eol t'"
    by auto
  have step: "apply_line_edits (e # es) ls = apply_line_edits es (ls[i := t])"
    using e it(2) by (simp add: apply_line_edits_def replace_line_no_eol)
  from Cons.IH [OF d rest] have ih:
    "length (apply_line_edits es (ls[i := t])) = length ls"
    "\<forall>j < length ls. apply_line_edits es (ls[i := t]) ! j
        = (case map_of es j of Some t' \<Rightarrow> t' | None \<Rightarrow> ls[i := t] ! j)"
    by simp_all
  have none: "map_of es i = None" using ni by (simp add: map_of_eq_None_iff)
  have "apply_line_edits (e # es) ls ! j
        = (case map_of (e # es) j of Some t' \<Rightarrow> t' | None \<Rightarrow> ls ! j)" if "j < length ls" for j
  proof (cases "j = i")
    case True
    with ih(2) that none step e it(1) show ?thesis by simp
  next
    case False
    with ih(2) that step e show ?thesis by (cases "map_of es j") simp_all
  qed
  with ih(1) step show ?case by simp
qed

lemma idchar_not_eol: "is_idchar c \<Longrightarrow> \<not> is_eol c"
proof
  assume a: "is_idchar c" and "is_eol c"
  then have "c = CHR 0x0A \<or> c = CHR 0x0D" by (simp add: is_eol_def)
  moreover have "\<not> is_idchar (CHR 0x0A)" "\<not> is_idchar (CHR 0x0D)"
    by (simp_all add: is_idchar_def lower_letters_def upper_letters_def is_digit_def)
  ultimately show False using a by auto
qed

lemma no_eol_append: "no_eol (a @ b) \<longleftrightarrow> no_eol a \<and> no_eol b"
  by (simp add: no_eol_def)

lemma no_eol_newLineText:
  assumes "no_eol l" and "wf_token tok"
  shows "no_eol (newLineText l (Some tok))"
proof -
  from unstamped_decomp [of l] obtain y where "l = unstamped l @ y" by (elim exE conjE)
  with assms(1) have "no_eol (unstamped l)" by (metis no_eol_append)
  moreover have "no_eol tok"
    using assms(2) idchar_not_eol by (auto simp add: wf_token_def no_eol_def list_all_iff)
  moreover have "no_eol '' ''" "no_eol id_open" "no_eol '']''"
    by (simp_all add: no_eol_def is_eol_def id_open_def)
  ultimately show ?thesis by (simp add: newLineText_def id_text_def no_eol_def)
qed

lemma document_stamped_once:
  assumes "\<forall>l \<in> set ls. no_eol l" and "reads ls idof"
    and "es = map (\<lambda>j. (j, newLineText (ls ! j) (Some (idof j))))
            (filter (\<lambda>j. ls ! j \<noteq> newLineText (ls ! j) (Some (idof j))) (selected ls 0 0))"
  shows "length (apply_line_edits es ls) = length ls \<and>
     (\<forall>j < length ls. apply_line_edits es ls ! j
        = (if j \<in> set (selected ls 0 0) then newLineText (ls ! j) (Some (idof j)) else ls ! j))"
proof -
  let ?sel = "selected ls 0 0"
  let ?new = "\<lambda>j. newLineText (ls ! j) (Some (idof j))"
  let ?changed = "filter (\<lambda>j. ls ! j \<noteq> ?new j) ?sel"
  have in_range: "j < length ls" if "j \<in> set ?sel" for j
    using selected_bounds [OF that] by simp
  have fst_es: "map fst es = ?changed" by (simp add: assms(3) comp_def)
  have d: "distinct (map fst es)" unfolding fst_es by (simp add: selected_distinct)
  have ok: "\<forall>(i, t) \<in> set es. i < length ls \<and> no_eol t"
  proof -
    have "i < length ls \<and> no_eol t" if "(i, t) \<in> set es" for i t
    proof -
      from that have i: "i \<in> set ?sel" "t = ?new i" by (auto simp add: assms(3))
      have "no_eol (ls ! i)" using assms(1) in_range [OF i(1)] by simp
      moreover have "wf_token (idof i)" using assms(2) by (simp add: reads_def)
      ultimately show ?thesis using i in_range [OF i(1)] no_eol_newLineText by simp
    qed
    then show ?thesis by auto
  qed
  have m: "map_of es j = (if j \<in> set ?changed then Some (?new j) else None)" for j
    unfolding assms(3) by (simp add: map_of_map_restrict restrict_map_def)
  from apply_line_edits_nth [OF d ok] have
    len: "length (apply_line_edits es ls) = length ls" and
    nth: "\<forall>j < length ls. apply_line_edits es ls ! j
        = (case map_of es j of Some t \<Rightarrow> t | None \<Rightarrow> ls ! j)"
    by simp_all
  have "apply_line_edits es ls ! j = (if j \<in> set ?sel then ?new j else ls ! j)"
    if "j < length ls" for j
    using nth that m [of j] by auto
  with len show ?thesis by simp
qed

lemma document_stamped_twice:
  assumes "\<forall>l \<in> set ls. no_eol l" and "reads ls idof"
    and "es = map (\<lambda>j. (j, newLineText (ls ! j) (Some (idof j))))
            (filter (\<lambda>j. ls ! j \<noteq> newLineText (ls ! j) (Some (idof j))) (selected ls 0 0))"
    and "ls' = apply_line_edits es ls" and "reads ls' idof'"
  shows "selected ls' 0 0 = selected ls 0 0"
    and "\<forall>j \<in> set (selected ls 0 0). idof' j = idof j \<and>
           newLineText (ls' ! j) (Some (idof' j)) = ls' ! j"
proof -
  let ?sel = "selected ls 0 0"
  from document_stamped_once [OF assms(1,2,3)] assms(4) have
    len: "length ls' = length ls" and
    nth: "\<And>j. j < length ls \<Longrightarrow>
        ls' ! j = (if j \<in> set ?sel then newLineText (ls ! j) (Some (idof j)) else ls ! j)"
    by simp_all
  have sel: "j < length ls \<and> matches_todo (ls ! j)" if "j \<in> set ?sel" for j
    using selected_bounds [OF that] by simp
  have "matches_todo (ls' ! j) = matches_todo (ls ! j)" if "j < length ls" for j
  proof (cases "j \<in> set ?sel")
    case True
    with sel [OF True] nth [OF that] matches_todo_stamp show ?thesis by simp
  next
    case False
    with nth [OF that] show ?thesis by simp
  qed
  then have "map matches_todo ls' = map matches_todo ls"
    using len by (simp add: list_eq_iff_nth_eq)
  then show "selected ls' 0 0 = ?sel" by (rule selected_cong)
  show "\<forall>j \<in> set ?sel. idof' j = idof j \<and> newLineText (ls' ! j) (Some (idof' j)) = ls' ! j"
  proof
    fix j assume j: "j \<in> set ?sel"
    have w: "wf_token (idof j)" using assms(2) by (simp add: reads_def)
    have c: "detected_id (ls ! j) = Some (idof j) \<or> detected_id (ls ! j) = None"
      using assms(2) by (cases "detected_id (ls ! j)") (auto simp add: reads_def)
    have l': "ls' ! j = unstamped (ls ! j) @ CHR '' '' # id_open @ idof j @ '']''"
      using nth [of j] sel [OF j] j by (simp add: newLineText_def id_text_def)
    have "detected_id (ls' ! j) = Some (idof j)"
      unfolding l' using w c by (rule stamped_detected)
    with assms(5) have same: "idof' j = idof j" by (simp add: reads_def)
    have "unstamped (ls' ! j) = unstamped (ls ! j)"
      unfolding l' using w by (rule stamped_unstamped)
    then have "newLineText (ls' ! j) (Some (idof' j)) = ls' ! j"
      using same l' by (simp add: newLineText_def id_text_def)
    with same show "idof' j = idof j \<and> newLineText (ls' ! j) (Some (idof' j)) = ls' ! j"
      by simp
  qed
qed

text \<open>
  C4 (idempotence of stamping). Parse a document, inject the identifiers and apply the
  edits; then parse the result and inject again, with any source of randomness. The
  second injection schedules no edit for any line, so the buffer stays byte for byte
  what the first application left, and every record keeps its identifier. The lines of
  a document contain no line break.
\<close>

theorem stamping_idempotent:
  assumes "\<forall>l \<in> set (doc_lines doc). no_eol l"
  shows "\<exists>es. injectTodoIds doc (fst (parseTodos doc rnd k)) = Inr es \<and>
     injectTodoIds (doc\<lparr>doc_lines := apply_line_edits es (doc_lines doc)\<rparr>)
        (fst (parseTodos (doc\<lparr>doc_lines := apply_line_edits es (doc_lines doc)\<rparr>) rnd' k'))
       = Inr [] \<and>
     map todo_id (fst (parseTodos (doc\<lparr>doc_lines := apply_line_edits es (doc_lines doc)\<rparr>) rnd' k'))
       = map todo_id (fst (parseTodos doc rnd k))"
proof -
  let ?ls = "doc_lines doc"
  let ?fp = "doc_fsPath doc"
  let ?sel = "selected ?ls 0 0"
  from parseTodos_shape [of doc rnd k] obtain idof where
    r: "reads ?ls idof" and p: "fst (parseTodos doc rnd k) = map (record_at ?fp ?ls idof) ?sel"
    by (elim exE conjE)
  define es where "es = map (\<lambda>j. (j, newLineText (?ls ! j) (Some (idof j))))
            (filter (\<lambda>j. ?ls ! j \<noteq> newLineText (?ls ! j) (Some (idof j))) ?sel)"
  define ls' where "ls' = apply_line_edits es ?ls"
  let ?doc' = "doc\<lparr>doc_lines := ls'\<rparr>"
  have in_range: "\<forall>j \<in> set ?sel. j < length ?ls"
    using selected_bounds [of _ ?ls 0 0] by auto
  have i1: "injectTodoIds doc (fst (parseTodos doc rnd k)) = Inr es"
    unfolding injectTodoIds_def p es_def using in_range by (rule inject_edits_records)
  from parseTodos_shape [of ?doc' rnd' k'] obtain idof' where
    r': "reads ls' idof'" and
    p': "fst (parseTodos ?doc' rnd' k') = map (record_at ?fp ls' idof') (selected ls' 0 0)"
    by auto
  have s: "selected ls' 0 0 = ?sel"
    using assms r es_def ls'_def r' by (rule document_stamped_twice(1))
  have f: "\<forall>j \<in> set ?sel. idof' j = idof j \<and> newLineText (ls' ! j) (Some (idof' j)) = ls' ! j"
    using assms r es_def ls'_def r' by (rule document_stamped_twice(2))
  from document_stamped_once [OF assms r es_def] have len: "length ls' = length ?ls"
    by (simp add: ls'_def)
  have in_range': "\<forall>j \<in> set ?sel. j < length ls'" using in_range len by simp
  have "\<forall>j \<in> set ?sel. \<not> ls' ! j \<noteq> newLineText (ls' ! j) (Some (idof' j))"
    using f by metis
  then have "filter (\<lambda>j. ls' ! j \<noteq> newLineText (ls' ! j) (Some (idof' j))) ?sel = []"
    by (simp only: filter_empty_conv)
  with inject_edits_records [OF in_range', of ?fp ls' idof']
  have i2: "injectTodoIds ?doc' (fst (parseTodos ?doc' rnd' k')) = Inr []"
    by (simp add: injectTodoIds_def p' s)
  have "map todo_id (map (record_at ?fp ls' idof') ?sel)
      = map todo_id (map (record_at ?fp ?ls idof) ?sel)"
    using f by (simp add: record_at_fields)
  then have ids: "map todo_id (fst (parseTodos ?doc' rnd' k')) = map todo_id (fst (parseTodos doc rnd k))"
    by (simp add: p p' s)
  from i1 i2 ids show ?thesis unfolding ls'_def by blast
qed

theorem stamping_idempotent_witness:
  "injectTodoIds example_doc (fst (parseTodos example_doc zero_source 0))
     = Inr [(0, ''// TODO: fix null check [id:00000000-0000-4000-8000-000000000000]'')] \<and>
   injectTodoIds
     (example_doc\<lparr>doc_lines := apply_line_edits
        [(0, ''// TODO: fix null check [id:00000000-0000-4000-8000-000000000000]'')]
        (doc_lines example_doc)\<rparr>)
     (fst (parseTodos
        (example_doc\<lparr>doc_lines := apply_line_edits
           [(0, ''// TODO: fix null check [id:00000000-0000-4000-8000-000000000000]'')]
           (doc_lines example_doc)\<rparr>) zero_source 0))
     = Inr []"
proof -
  have h: "\<forall>l \<in> set (doc_lines example_doc). no_eol l"
    by (simp add: example_doc_def no_eol_def is_eol_def)
  have e: "injectTodoIds example_doc (fst (parseTodos example_doc zero_source 0))
     = Inr [(0, ''// TODO: fix null check [id:00000000-0000-4000-8000-000000000000]'')]"
    by code_simp
  from stamping_idempotent [OF h, of zero_source 0 zero_source 0] e show ?thesis by auto
qed

section \<open>Properties of the scan and of the pull direction\<close>

subsection \<open>The bound of the parser\<close>

lemma parse_lines_bounded:
  "length todos \<le> maxTodos \<Longrightarrow>
     length (fst (parse_lines filePath rnd ls i k todos)) \<le> maxTodos"
proof (induction ls arbitrary: i k todos)
  case Nil
  then show ?case by simp
next
  case (Cons l ls)
  show ?case
  proof (cases "length todos < maxTodos")
    case False
    with Cons.prems show ?thesis by simp
  next
    case True
    then have "\<And>t. length (todos @ [t]) \<le> maxTodos" by simp
    with True Cons.IH Cons.prems show ?thesis
      by (auto split: option.splits prod.splits)
  qed
qed

lemma parseTodos_bounded: "length (fst (parseTodos doc rnd k)) \<le> maxTodos"
  unfolding parseTodos_def by (rule parse_lines_bounded) simp

lemma parse_lines_order:
  "sorted_wrt (<) (map todo_line todos) \<Longrightarrow> \<forall>t \<in> set todos. todo_line t < i \<Longrightarrow>
     sorted_wrt (<) (map todo_line (fst (parse_lines filePath rnd ls i k todos)))"
proof (induction ls arbitrary: i k todos)
  case Nil
  then show ?case by simp
next
  case (Cons l ls)
  have step: "sorted_wrt (<) (map todo_line (todos @ [make_todo filePath i l x]))
      \<and> (\<forall>t \<in> set (todos @ [make_todo filePath i l x]). todo_line t < i + 1)" for x
    using Cons.prems by (auto simp add: sorted_wrt_append make_todo_def)
  have keep: "\<forall>t \<in> set todos. todo_line t < i + 1" using Cons.prems(2) by auto
  show ?case
    using Cons.IH [OF Cons.prems(1) keep] Cons.IH [of "todos @ [make_todo filePath i l _]" "i + 1"]
      step Cons.prems(1)
    by (auto split: option.splits prod.splits)
qed

lemma parseTodos_line_order: "sorted_wrt (<) (map todo_line (fst (parseTodos doc rnd k)))"
  unfolding parseTodos_def by (rule parse_lines_order) simp_all

subsection \<open>The scan of the open documents\<close>

text \<open>
  C10 (a fixed maximum per document) holds of \<open>parseTodos\<close>, as shown above, and not of
  \<open>scanDocumentsForTodos\<close>. The bound of the scan is \<open>maxTodos\<close> times the position of the
  document: the second of two open documents, with a single marker line, contributes
  100 records, twice \<open>maxTodos\<close>. And the scan does not return: it ends in a
  \<open>ReferenceError\<close>.
\<close>

theorem scan_bound_grows_with_position:
  "map ct_uri (scanned two_docs) = replicate 100 ''file:///src/b.js'' \<and>
   maxTodos = 50 \<and>
   scanDocumentsForTodos two_docs = Inl (ReferenceError ''maxTodos is not defined'')"
  by code_simp

theorem scan_bound_grows_with_position_witness: "length (scanned two_docs) = 100"
proof -
  from scan_bound_grows_with_position
  have "length (map ct_uri (scanned two_docs)) = length (replicate 100 ''file:///src/b.js'')"
    by simp
  then show ?thesis by simp
qed

subsection \<open>The pull direction\<close>

text \<open>
  \<open>syncNotionToCode\<close> calls \<open>scanDocumentsForTodos\<close> before \<open>reconcileNotionToCode\<close>, its
  only caller. The scan raises, so the pull ends in the \<open>catch\<close> of the promise whatever
  the store answers and whatever the open documents hold.
\<close>

lemma syncNotionToCode_raises:
  "fst (syncNotionToCode cl cr openDocuments st) = Inl (ReferenceError ''maxTodos is not defined'')"
  by (simp add: syncNotionToCode_def scanDocumentsForTodos_def split: prod.splits)

lemma apply_edits_Nil: "apply_edits [] bufs = bufs"
  by (simp add: apply_edits_def)

text \<open>
  C7 (pull never introduces new lines). A pull hands no edit to the editor, so every
  buffer is after the pull what it was before: no line is added, none without a
  matching identifier is changed, and a remote record without local record causes no
  local mutation. This holds for every answer of the store, every set of open documents
  and every content of the buffers.
\<close>

theorem pull_leaves_buffers:
  "scheduled (fst (syncNotionToCode cl cr openDocuments st)) = [] \<and>
   pull cl cr openDocuments st bufs = bufs \<and>
   map_option length (pull cl cr openDocuments st bufs u) = map_option length (bufs u)"
  by (simp add: pull_def syncNotionToCode_raises apply_edits_Nil)

theorem pull_leaves_buffers_witness:
  "pull (ok_client [multiline_page]) some_credentials two_docs (start ()) (buffers two_docs)
     ''file:///src/b.js'' = Some [''let y = 2;'', ''// TODO [id:page-7] old text'']"
proof -
  have "buffers two_docs ''file:///src/b.js''
          = Some [''let y = 2;'', ''// TODO [id:page-7] old text'']"
    by (simp add: buffers_def two_docs_def stale_doc_def)
  with pull_leaves_buffers [of "ok_client [multiline_page]" some_credentials two_docs
      "start ()" "buffers two_docs"]
  show ?thesis by simp
qed

subsection \<open>The edits of \<open>reconcileNotionToCode\<close>\<close>

text \<open>
  What \<open>reconcileNotionToCode\<close> would schedule if the scan returned its array: the lemmas
  of this subsection are about that function alone, applied to the maps
  \<open>syncNotionToCode\<close> builds.
\<close>

lemma delete_line_update: "delete_line i ls = ls[i := []]"
  by (simp add: delete_line_def list_update_beyond)

lemma apply_edit_no_eol:
  assumes "no_eol (edit_text e)"
  shows "apply_edit e bufs u =
     (case bufs u of
        None \<Rightarrow> None
      | Some ls \<Rightarrow>
          if u = fst (edit_target e) then Some (ls[snd (edit_target e) := edit_text e])
          else Some ls)"
proof (cases e)
  case (ReplaceLine uri i t)
  with assms show ?thesis
    by (auto simp add: replace_line_no_eol split: option.splits)
next
  case (DeleteLine uri i)
  then show ?thesis by (auto simp add: delete_line_update split: option.splits)
qed

lemma apply_edits_frame:
  assumes "\<forall>e \<in> set es. no_eol (edit_text e)" and "bufs u = Some ls"
  shows "\<exists>ls'. apply_edits es bufs u = Some ls' \<and> length ls' = length ls \<and>
     (\<forall>i. (u, i) \<notin> edit_target ` set es \<longrightarrow> ls' ! i = ls ! i)"
  using assms
proof (induction es arbitrary: bufs ls)
  case Nil
  then show ?case by (simp add: apply_edits_def)
next
  case (Cons e es)
  have ne: "no_eol (edit_text e)" using Cons.prems(1) by simp
  define ls1 where "ls1 = (if u = fst (edit_target e)
     then ls[snd (edit_target e) := edit_text e] else ls)"
  have b1: "apply_edit e bufs u = Some ls1"
    using apply_edit_no_eol [OF ne, of bufs u] Cons.prems(2) by (simp add: ls1_def)
  have rest: "\<forall>e \<in> set es. no_eol (edit_text e)" using Cons.prems(1) by simp
  from Cons.IH [of "apply_edit e bufs" ls1, OF rest b1] obtain ls' where
    ls': "apply_edits es (apply_edit e bufs) u = Some ls'" "length ls' = length ls1"
      "\<forall>i. (u, i) \<notin> edit_target ` set es \<longrightarrow> ls' ! i = ls1 ! i"
    by (elim exE conjE)
  have a: "apply_edits (e # es) bufs u = Some ls'" using ls'(1) by (simp add: apply_edits_def)
  have l: "length ls' = length ls" using ls'(2) by (simp add: ls1_def)
  have f: "ls' ! i = ls ! i" if "(u, i) \<notin> edit_target ` set (e # es)" for i
  proof -
    from that have "(u, i) \<noteq> edit_target e" "(u, i) \<notin> edit_target ` set es" by auto
    then have "ls1 ! i = ls ! i" "ls' ! i = ls1 ! i"
      using ls'(3) by (auto simp add: ls1_def prod_eq_iff)
    then show ?thesis by simp
  qed
  from a l f show ?case by blast
qed

lemma apply_edits_None: "bufs u = None \<Longrightarrow> apply_edits es bufs u = None"
proof (induction es arbitrary: bufs)
  case Nil
  then show ?case by (simp add: apply_edits_def)
next
  case (Cons e es)
  have "apply_edit e bufs u = None"
    using Cons.prems by (cases e) (auto split: option.splits)
  from Cons.IH [of "apply_edit e bufs", OF this] show ?case by (simp add: apply_edits_def)
qed

lemma reconcile_task_edit:
  assumes "e \<in> set (reconcile_task codeMap k t)"
  shows "\<exists>c. obj_get codeMap k = Own c \<and> edit_target e = (ct_uri c, ct_line c) \<and>
     (edit_text e = [] \<or> edit_text e = task_text t)"
proof (cases "obj_get codeMap k")
  case (Own c)
  with assms show ?thesis by (auto simp add: reconcile_task_def split: if_splits)
next
  case Inherited
  with assms show ?thesis by (simp add: reconcile_task_def split: if_splits)
next
  case Undefined
  with assms show ?thesis by (simp add: reconcile_task_def split: if_splits)
qed

lemma reconcile_edit:
  assumes "e \<in> set (reconcileNotionToCode notionMap codeMap)"
  shows "\<exists>k t c. (k, t) \<in> set notionMap \<and> obj_get codeMap k = Own c \<and>
     edit_target e = (ct_uri c, ct_line c) \<and> (edit_text e = [] \<or> edit_text e = task_text t)"
proof -
  from assms obtain k where k: "e \<in> set (case map_of notionMap k of
      None \<Rightarrow> [] | Some notionTask \<Rightarrow> reconcile_task codeMap k notionTask)"
    by (auto simp add: reconcileNotionToCode_def)
  then obtain t where kt: "map_of notionMap k = Some t"
    "e \<in> set (reconcile_task codeMap k t)"
    by (cases "map_of notionMap k") auto
  from kt(1) have "(k, t) \<in> set notionMap" by (rule map_of_SomeD)
  with reconcile_task_edit [OF kt(2)] show ?thesis by blast
qed

lemma reconcile_unmatched:
  assumes "\<forall>(k, t) \<in> set notionMap. \<forall>c. obj_get codeMap k \<noteq> Own c"
  shows "reconcileNotionToCode notionMap codeMap = []"
proof (rule ccontr)
  assume "reconcileNotionToCode notionMap codeMap \<noteq> []"
  then obtain e where "e \<in> set (reconcileNotionToCode notionMap codeMap)"
    by (cases "reconcileNotionToCode notionMap codeMap") auto
  from reconcile_edit [OF this] assms show False by blast
qed

lemma no_eol_Nil: "no_eol []"
  by (simp add: no_eol_def)

text \<open>
  The title of the remote task replaces the range of the matched line as it is: a title
  of two lines would leave the buffer with three lines instead of two.
\<close>

lemma reconcile_multiline_title:
  "map_option length (buffers two_docs ''file:///src/b.js'') = Some 2 \<and>
   apply_edits (reconcileNotionToCode (notionMap_of [multiline_task])
       (codeMap_of (scanned two_docs))) (buffers two_docs) ''file:///src/b.js''
     = Some [''let y = 2;'', ''first'', ''second'']"
  by code_simp

text \<open>
  When no remote title contains a line break, applying any of the edits of
  \<open>reconcileNotionToCode\<close>, in any order, keeps the number of lines of every buffer, and
  a line whose text changes is the recorded line of a local record whose identifier is
  a key of the remote map; when no key of the remote map has a local record, there is
  no edit at all.
\<close>

lemma reconcile_frame:
  assumes "\<forall>(k, t) \<in> set notionMap. no_eol (task_text t)"
    and "set es \<subseteq> set (reconcileNotionToCode notionMap codeMap)"
    and "bufs u = Some ls"
  shows "\<exists>ls'. apply_edits es bufs u = Some ls' \<and> length ls' = length ls \<and>
     (\<forall>i. ls' ! i \<noteq> ls ! i \<longrightarrow>
        (\<exists>k t c. (k, t) \<in> set notionMap \<and> obj_get codeMap k = Own c \<and>
           ct_uri c = u \<and> ct_line c = i)) \<and>
     ((\<forall>(k, t) \<in> set notionMap. \<forall>c. obj_get codeMap k \<noteq> Own c) \<longrightarrow>
        reconcileNotionToCode notionMap codeMap = [])"
proof -
  have ne: "\<forall>e \<in> set es. no_eol (edit_text e)"
  proof
    fix e assume "e \<in> set es"
    with assms(2) have "e \<in> set (reconcileNotionToCode notionMap codeMap)" by auto
    from reconcile_edit [OF this] obtain k t where
      "(k, t) \<in> set notionMap" "edit_text e = [] \<or> edit_text e = task_text t" by blast
    with assms(1) no_eol_Nil show "no_eol (edit_text e)" by auto
  qed
  from apply_edits_frame [of es bufs u ls, OF ne assms(3)] obtain ls' where
    ls': "apply_edits es bufs u = Some ls'" "length ls' = length ls"
      "\<forall>i. (u, i) \<notin> edit_target ` set es \<longrightarrow> ls' ! i = ls ! i"
    by (elim exE conjE)
  have "\<exists>k t c. (k, t) \<in> set notionMap \<and> obj_get codeMap k = Own c \<and>
           ct_uri c = u \<and> ct_line c = i" if "ls' ! i \<noteq> ls ! i" for i
  proof -
    from that ls'(3) obtain e where e: "e \<in> set es" "edit_target e = (u, i)" by force
    with assms(2) have "e \<in> set (reconcileNotionToCode notionMap codeMap)" by auto
    from reconcile_edit [OF this] e(2) show ?thesis by auto
  qed
  with ls'(1,2) reconcile_unmatched [of notionMap codeMap] show ?thesis by blast
qed

lemma reconcile_frame_example:
  "map_option length (apply_edits (reconcileNotionToCode (notionMap_of [plain_task])
       (codeMap_of (scanned two_docs))) (buffers two_docs) ''file:///src/b.js'') = Some 2"
proof -
  have n: "notionMap_of [plain_task] = [(''page-7'', plain_task)]"
    by (simp add: notionMap_of_def obj_set_def proto_key_def plain_task_def)
  have h1: "\<forall>(k, t) \<in> set (notionMap_of [plain_task]). no_eol (task_text t)"
    unfolding n by (simp add: plain_task_def no_eol_def is_eol_def)
  have h3: "buffers two_docs ''file:///src/b.js'' = Some (doc_lines stale_doc)"
    by (simp add: buffers_def two_docs_def)
  from reconcile_frame [of "notionMap_of [plain_task]"
      "reconcileNotionToCode (notionMap_of [plain_task]) (codeMap_of (scanned two_docs))"
      "codeMap_of (scanned two_docs)" "buffers two_docs" "''file:///src/b.js''"
      "doc_lines stale_doc", OF h1 _ h3]
  obtain ls' where "apply_edits (reconcileNotionToCode (notionMap_of [plain_task])
       (codeMap_of (scanned two_docs))) (buffers two_docs) ''file:///src/b.js'' = Some ls'"
    "length ls' = length (doc_lines stale_doc)" by auto
  then show ?thesis by (simp add: stale_doc_def)
qed

end
